theory Spec2Isabelle
  imports Main
begin

section \<open>Python values used by the backend\<close>

text \<open>
  A Python \<open>str\<close> is a sequence of Unicode code points; it is modelled as a list of
  natural numbers, one per code point, so that \<open>len\<close>, indexing and slicing count what
  Python counts.  \<open>py ''abc''\<close> writes a literal.
\<close>

type_synonym str = "nat list"

abbreviation (input) ord :: "char \<Rightarrow> nat" where
  "ord \<equiv> of_char"

abbreviation (input) py :: "string \<Rightarrow> str" where
  "py \<equiv> map of_char"

text \<open>
  The exceptions that occur in \<open>backend.py\<close>.  \<open>HTTPException\<close> carries its status code;
  the \<open>detail\<close> text is not modelled.  \<open>ServiceError\<close> stands for whatever an external
  client (Groq, Deepgram, gTTS, PyPDF2) raises.
\<close>

datatype exn =
    HTTPException nat
  | JSONDecodeError
  | RecursionError
  | ValueError
  | IndexError
  | AttributeError
  | TypeError
  | ServiceError

text \<open>
  The values \<open>json.loads\<close> produces.  A \<open>dict\<close> is an association list in insertion
  order with distinct keys.  A float is kept as the text of its literal: its numeric
  value plays no role in the backend.
\<close>

datatype json =
    JNull
  | JBool bool
  | JInt int
  | JFloat str
  | JString str
  | JArray "json list"
  | JObject "(str \<times> json) list"

text \<open>\<open>d[k] = v\<close> on a dict: an existing key keeps its place and gets the new value.\<close>

fun dict_set :: "str \<Rightarrow> json \<Rightarrow> (str \<times> json) list \<Rightarrow> (str \<times> json) list" where
  "dict_set k v [] = [(k, v)]"
| "dict_set k v (p # ps) = (if fst p = k then (k, v) # ps else p # dict_set k v ps)"

text \<open>\<open>d.get(k)\<close>: \<open>None\<close> stands for a missing key.\<close>

fun dict_get :: "(str \<times> json) list \<Rightarrow> str \<Rightarrow> json option" where
  "dict_get [] k = None"
| "dict_get (p # ps) k = (if fst p = k then Some (snd p) else dict_get ps k)"

subsection \<open>String methods\<close>

text \<open>\<open>str.isspace\<close> on one code point (CPython's \<open>_PyUnicode_IsWhitespace\<close>).\<close>

definition isspace :: "nat \<Rightarrow> bool" where
  "isspace c \<longleftrightarrow>
     (9 \<le> c \<and> c \<le> 13) \<or> (28 \<le> c \<and> c \<le> 32) \<or> c = 133 \<or> c = 160 \<or> c = 5760 \<or>
     (8192 \<le> c \<and> c \<le> 8202) \<or> c = 8232 \<or> c = 8233 \<or> c = 8239 \<or> c = 8287 \<or>
     c = 12288"

text \<open>\<open>s.strip()\<close>.\<close>

definition strip :: "str \<Rightarrow> str" where
  "strip s = rev (dropWhile isspace (rev (dropWhile isspace s)))"

text \<open>\<open>s.endswith(suffix)\<close>.\<close>

definition endswith :: "str \<Rightarrow> str \<Rightarrow> bool" where
  "endswith s suffix \<longleftrightarrow>
     length suffix \<le> length s \<and> drop (length s - length suffix) s = suffix"

text \<open>\<open>needle in s\<close> for two strings.\<close>

fun contains :: "str \<Rightarrow> str \<Rightarrow> bool" where
  "contains [] needle = (needle = [])"
| "contains (c # cs) needle = (take (length needle) (c # cs) = needle \<or> contains cs needle)"

text \<open>\<open>xs[i]\<close> on a list: a negative index counts from the end.\<close>

definition index :: "'a list \<Rightarrow> int \<Rightarrow> exn + 'a" where
  "index xs i =
     (if 0 \<le> i \<and> i < int (length xs) then Inr (xs ! nat i)
      else if i < 0 \<and> - int (length xs) \<le> i then Inr (xs ! nat (int (length xs) + i))
      else Inl IndexError)"

text \<open>\<open>s.find(c)\<close> and \<open>s.rfind(c)\<close> for a one-character needle: the index, or \<open>-1\<close>.\<close>

fun find_from :: "nat \<Rightarrow> nat \<Rightarrow> str \<Rightarrow> int" where
  "find_from c i [] = -1"
| "find_from c i (x # xs) = (if x = c then int i else find_from c (Suc i) xs)"

definition find :: "str \<Rightarrow> nat \<Rightarrow> int" where
  "find s c = find_from c 0 s"

definition rfind :: "str \<Rightarrow> nat \<Rightarrow> int" where
  "rfind s c =
     (let r = find_from c 0 (rev s) in if r = -1 then -1 else int (length s) - 1 - r)"

text \<open>\<open>s[i:j]\<close> for indices that are not negative.\<close>

definition slice :: "str \<Rightarrow> int \<Rightarrow> int \<Rightarrow> str" where
  "slice s i j = take (nat j - nat i) (drop (nat i) s)"

section \<open>\<open>json.loads\<close>\<close>

text \<open>
  \<open>json.loads\<close> is library code.  It is modelled after CPython's decoder (the default,
  strict one), which reads the text once from left to right: a lexer for the tokens of
  JSON, with Python's extensions \<open>NaN\<close>, \<open>Infinity\<close> and \<open>-Infinity\<close>, and a
  pushdown recogniser for the grammar that consumes them in order and stops at the first
  error.  A malformed text is a \<open>JSONDecodeError\<close>.  Two limits of the interpreter raise
  other exceptions: entering a container nested deeper than the interpreter allows is a
  \<open>RecursionError\<close>, and converting an integer literal with more digits than
  \<open>sys.get_int_max_str_digits()\<close> is a \<open>ValueError\<close>.
\<close>

text \<open>
  The interpreter, as far as \<open>json.loads\<close> depends on it: \<open>max_depth\<close> is the number
  of containers that can be nested at the call (the recursion limit less the frames in
  use), \<open>max_digits\<close> the digit limit of \<open>int\<close>, 0 for none.  \<open>cpython\<close> has
  the defaults of CPython 3.11 at top level.
\<close>

datatype interpreter = Interpreter (max_depth: nat) (max_digits: nat)

definition cpython :: interpreter where
  "cpython = Interpreter 995 4300"

text \<open>
  An integer literal is a token with its value and the number of its digits; \<open>TInvalid\<close>
  marks the place where the text stops being a sequence of tokens.
\<close>

datatype token =
    TLBrace | TRBrace | TLBracket | TRBracket | TColon | TComma
  | TScalar json
  | TInt int nat
  | TInvalid

definition isdigit :: "nat \<Rightarrow> bool" where
  "isdigit c \<longleftrightarrow> 48 \<le> c \<and> c \<le> 57"

text \<open>The value of a hexadecimal digit.\<close>

definition hexval :: "nat \<Rightarrow> nat option" where
  "hexval c =
     (if 48 \<le> c \<and> c \<le> 57 then Some (c - 48)
      else if 97 \<le> c \<and> c \<le> 102 then Some (c - 87)
      else if 65 \<le> c \<and> c \<le> 70 then Some (c - 55)
      else None)"

text \<open>The four hexadecimal digits after \<open>\u\<close>: the code unit and the rest.\<close>

fun decode_uXXXX :: "str \<Rightarrow> (nat \<times> str) option" where
  "decode_uXXXX (a # b # c # d # rest) =
     (case (hexval a, hexval b, hexval c, hexval d) of
        (Some w, Some x, Some y, Some z) \<Rightarrow> Some (((w * 16 + x) * 16 + y) * 16 + z, rest)
      | _ \<Rightarrow> None)"
| "decode_uXXXX _ = None"

text \<open>The one-letter escapes.\<close>

definition backslash :: "nat \<Rightarrow> nat option" where
  "backslash e =
     (if e = ord CHR 0x22 then Some (ord CHR 0x22)
      else if e = ord CHR 0x5C then Some (ord CHR 0x5C)
      else if e = ord CHR ''/'' then Some (ord CHR ''/'')
      else if e = ord CHR ''b'' then Some 8
      else if e = ord CHR ''f'' then Some 12
      else if e = ord CHR ''n'' then Some 10
      else if e = ord CHR ''r'' then Some 13
      else if e = ord CHR ''t'' then Some 9
      else None)"

text \<open>
  One escape sequence, the backslash already read: the character it denotes and the
  rest.  A high surrogate followed by an escaped low surrogate is one character.
\<close>

definition scan_escape :: "str \<Rightarrow> (nat \<times> str) option" where
  "scan_escape s =
     (case s of
        [] \<Rightarrow> None
      | e # es \<Rightarrow>
          if e = ord CHR ''u'' then
            (case decode_uXXXX es of
               None \<Rightarrow> None
             | Some (uni, rest) \<Rightarrow>
                 (case (if 55296 \<le> uni \<and> uni \<le> 56319 \<and> take 2 rest = [ord CHR 0x5C, ord CHR ''u'']
                        then decode_uXXXX (drop 2 rest) else None) of
                    Some (uni2, rest2) \<Rightarrow>
                      if 56320 \<le> uni2 \<and> uni2 \<le> 57343
                      then Some (65536 + (uni - 55296) * 1024 + (uni2 - 56320), rest2)
                      else Some (uni, rest)
                  | None \<Rightarrow> Some (uni, rest)))
          else (case backslash e of None \<Rightarrow> None | Some ch \<Rightarrow> Some (ch, es)))"

lemma decode_uXXXX_shorter:
  "decode_uXXXX s = Some (u, rest) \<Longrightarrow> length rest < length s"
  by (induction s rule: decode_uXXXX.induct) (auto split: option.splits)

lemma scan_escape_shorter:
  "scan_escape s = Some (ch, rest) \<Longrightarrow> length rest < length s"
  unfolding scan_escape_def
  by (fastforce split: list.splits if_splits option.splits prod.splits
        dest!: decode_uXXXX_shorter)

text \<open>
  A string literal, the opening quote already read: its decoded content and the rest
  after the closing quote.  A raw control character and an input that ends before the
  closing quote are errors.
\<close>

function scanstring :: "str \<Rightarrow> (str \<times> str) option" where
  "scanstring [] = None"
| "scanstring (c # cs) =
     (if c = ord CHR 0x22 then Some ([], cs)
      else if c = ord CHR 0x5C then
        (case scan_escape cs of
           None \<Rightarrow> None
         | Some (ch, rest) \<Rightarrow>
             (case scanstring rest of
                None \<Rightarrow> None
              | Some (body, rest') \<Rightarrow> Some (ch # body, rest')))
      else if c < 32 then None
      else
        (case scanstring cs of
           None \<Rightarrow> None
         | Some (body, rest') \<Rightarrow> Some (c # body, rest')))"
  by pat_completeness auto
termination
  by (relation "measure length") (auto dest: scan_escape_shorter)

lemma scanstring_shorter:
  "scanstring s = Some (body, rest) \<Longrightarrow> length rest < length s"
proof (induction s arbitrary: body rest rule: scanstring.induct)
  case 1
  then show ?case by simp
next
  case (2 c cs)
  then show ?case
    by (fastforce split: if_splits option.splits prod.splits
          dest: scan_escape_shorter)
qed

text \<open>
  A number, as CPython's \<open>_match_number_unicode\<close> reads it: an optional minus sign, an
  integer part without a leading zero, an optional fraction, an optional exponent (left
  unread when no digit follows it).  The token is an integer, or a float kept as the
  text that was read.
\<close>

definition digits_value :: "str \<Rightarrow> int" where
  "digits_value ds = foldl (\<lambda>a d. a * 10 + (int d - 48)) 0 ds"

definition scan_fraction :: "str \<Rightarrow> str \<times> str" where
  "scan_fraction s =
     (case s of
        p # d # ds \<Rightarrow>
          if p = ord CHR ''.'' \<and> isdigit d
          then (p # takeWhile isdigit (d # ds), dropWhile isdigit (d # ds))
          else ([], s)
      | _ \<Rightarrow> ([], s))"

definition scan_exponent :: "str \<Rightarrow> str \<times> str" where
  "scan_exponent s =
     (case s of
        [] \<Rightarrow> ([], s)
      | e # es \<Rightarrow>
          if e = ord CHR ''e'' \<or> e = ord CHR ''E'' then
            (let sign = (case es of
                           [] \<Rightarrow> []
                         | g # gs \<Rightarrow> if (g = ord CHR ''-'' \<or> g = ord CHR ''+'') \<and> gs \<noteq> [] then [g] else []);
                 after = drop (length sign) es
             in if takeWhile isdigit after = [] then ([], s)
                else (e # sign @ takeWhile isdigit after, dropWhile isdigit after))
          else ([], s))"

definition scan_number :: "str \<Rightarrow> (token \<times> str) option" where
  "scan_number s =
     (let sign = (if take 1 s = [ord CHR ''-''] then [ord CHR ''-''] else []);
          s1 = drop (length sign) s
      in case s1 of
           [] \<Rightarrow> None
         | d # ds \<Rightarrow>
             if \<not> isdigit d then None
             else
               (let ip = (if d = ord CHR ''0'' then [d] else takeWhile isdigit s1);
                    (frac, s2) = scan_fraction (drop (length ip) s1);
                    (ex, s3) = scan_exponent s2
                in if frac = [] \<and> ex = []
                   then Some (TInt (if sign = [] then digits_value ip else - digits_value ip)
                                (length ip), s3)
                   else Some (TScalar (JFloat (sign @ ip @ frac @ ex)), s3)))"

lemma scan_fraction_shorter: "scan_fraction s = (f, r) \<Longrightarrow> length r \<le> length s"
  unfolding scan_fraction_def
  by (auto split: list.splits if_splits
        intro: le_trans [OF length_dropWhile_le])

lemma scan_exponent_shorter: "scan_exponent s = (f, r) \<Longrightarrow> length r \<le> length s"
  unfolding scan_exponent_def Let_def
  by (auto split: list.splits if_splits
        intro: le_trans [OF length_dropWhile_le])

lemma scan_number_shorter:
  assumes "scan_number s = Some (v, r)"
  shows "length r < length s"
proof -
  define sign where "sign = (if take 1 s = [ord CHR ''-''] then [ord CHR ''-''] else [])"
  define s1 where "s1 = drop (length sign) s"
  from assms obtain d ds where s1: "s1 = d # ds" and dig: "isdigit d"
    unfolding scan_number_def Let_def sign_def [symmetric] s1_def [symmetric]
    by (auto split: list.splits if_splits)
  define ip where "ip = (if d = ord CHR ''0'' then [d] else takeWhile isdigit s1)"
  obtain frac s2 where f: "scan_fraction (drop (length ip) s1) = (frac, s2)"
    by (cases "scan_fraction (drop (length ip) s1)")
  obtain ex s3 where e: "scan_exponent s2 = (ex, s3)"
    by (cases "scan_exponent s2")
  have r: "r = s3"
    using assms s1 dig f e
    unfolding scan_number_def Let_def sign_def [symmetric] s1_def [symmetric]
    by (auto simp: ip_def split: if_splits)
  have "0 < length ip"
    using s1 dig by (auto simp: ip_def)
  moreover have "length ip \<le> length s1"
    using s1 by (auto simp: ip_def length_takeWhile_le)
  ultimately have "length (drop (length ip) s1) < length s1"
    using s1 by (cases ip) auto
  moreover have "length s1 \<le> length s"
    by (simp add: s1_def)
  moreover have "length s3 \<le> length (drop (length ip) s1)"
    using scan_fraction_shorter [OF f] scan_exponent_shorter [OF e] by simp
  ultimately show ?thesis
    using r by simp
qed

text \<open>
  The lexer.  Whitespace between tokens is space, tab, line feed and carriage return.
  The literals are tried as CPython's \<open>scan_once\<close> tries them, by their first
  character; what is left must be a number.  The tokens end with \<open>TInvalid\<close> where
  no token can be read.
\<close>

function tokenize :: "str \<Rightarrow> token list" where
  "tokenize [] = []"
| "tokenize (c # cs) =
     (if c = 32 \<or> c = 9 \<or> c = 10 \<or> c = 13 then tokenize cs
      else if c = ord CHR ''{'' then TLBrace # tokenize cs
      else if c = ord CHR ''}'' then TRBrace # tokenize cs
      else if c = ord CHR ''['' then TLBracket # tokenize cs
      else if c = ord CHR '']'' then TRBracket # tokenize cs
      else if c = ord CHR '':'' then TColon # tokenize cs
      else if c = ord CHR '','' then TComma # tokenize cs
      else if c = ord CHR 0x22 then
        (case scanstring cs of
           None \<Rightarrow> [TInvalid]
         | Some (body, rest) \<Rightarrow> TScalar (JString body) # tokenize rest)
      else if take 4 (c # cs) = py ''null'' then TScalar JNull # tokenize (drop 3 cs)
      else if take 4 (c # cs) = py ''true'' then TScalar (JBool True) # tokenize (drop 3 cs)
      else if take 5 (c # cs) = py ''false'' then TScalar (JBool False) # tokenize (drop 4 cs)
      else if take 3 (c # cs) = py ''NaN'' then TScalar (JFloat (py ''NaN'')) # tokenize (drop 2 cs)
      else if take 8 (c # cs) = py ''Infinity''
        then TScalar (JFloat (py ''Infinity'')) # tokenize (drop 7 cs)
      else if take 9 (c # cs) = py ''-Infinity''
        then TScalar (JFloat (py ''-Infinity'')) # tokenize (drop 8 cs)
      else
        (case scan_number (c # cs) of
           None \<Rightarrow> [TInvalid]
         | Some (t, rest) \<Rightarrow> t # tokenize rest))"
  by pat_completeness auto
termination
  by (relation "measure length")
    (auto dest: scanstring_shorter scan_number_shorter intro: le_imp_less_Suc)

text \<open>
  The grammar, as a pushdown recogniser over the tokens.  A frame is a container that is
  still open: an array with the elements read so far, an object with its members so far,
  or the key of the member whose value is being read.
\<close>

datatype frame = ArrayF "json list" | ObjectF "(str \<times> json) list" | KeyF str

datatype expect = Value | ValueOrEnd | KeyOrEnd | Key | Colon | CommaOrEnd | Finished json

text \<open>A value is complete: it is the result, an element, or the value of a member.\<close>

definition complete :: "json \<Rightarrow> frame list \<Rightarrow> (expect \<times> frame list) option" where
  "complete v st =
     (case st of
        [] \<Rightarrow> Some (Finished v, [])
      | ArrayF vs # st' \<Rightarrow> Some (CommaOrEnd, ArrayF (vs @ [v]) # st')
      | KeyF k # ObjectF kvs # st' \<Rightarrow> Some (CommaOrEnd, ObjectF (dict_set k v kvs) # st')
      | _ \<Rightarrow> None)"

definition close_array :: "frame list \<Rightarrow> (expect \<times> frame list) option" where
  "close_array st = (case st of ArrayF vs # st' \<Rightarrow> complete (JArray vs) st' | _ \<Rightarrow> None)"

definition close_object :: "frame list \<Rightarrow> (expect \<times> frame list) option" where
  "close_object st = (case st of ObjectF kvs # st' \<Rightarrow> complete (JObject kvs) st' | _ \<Rightarrow> None)"

definition value_step :: "frame list \<Rightarrow> token \<Rightarrow> (expect \<times> frame list) option" where
  "value_step st t =
     (case t of
        TScalar v \<Rightarrow> complete v st
      | TInt n k \<Rightarrow> complete (JInt n) st
      | TLBracket \<Rightarrow> Some (ValueOrEnd, ArrayF [] # st)
      | TLBrace \<Rightarrow> Some (KeyOrEnd, ObjectF [] # st)
      | _ \<Rightarrow> None)"

definition key_step :: "frame list \<Rightarrow> token \<Rightarrow> (expect \<times> frame list) option" where
  "key_step st t = (case t of TScalar (JString k) \<Rightarrow> Some (Colon, KeyF k # st) | _ \<Rightarrow> None)"

text \<open>One token is consumed; \<open>None\<close> is a token the grammar does not allow there.\<close>

definition step :: "expect \<times> frame list \<Rightarrow> token \<Rightarrow> (expect \<times> frame list) option" where
  "step c t =
     (case c of (e, st) \<Rightarrow>
        (case e of
           Value \<Rightarrow> value_step st t
         | ValueOrEnd \<Rightarrow> (if t = TRBracket then close_array st else value_step st t)
         | KeyOrEnd \<Rightarrow> (if t = TRBrace then close_object st else key_step st t)
         | Key \<Rightarrow> key_step st t
         | Colon \<Rightarrow> (if t = TColon then Some (Value, st) else None)
         | CommaOrEnd \<Rightarrow>
             (if t = TComma then
                (case st of
                   ArrayF vs # st' \<Rightarrow> Some (Value, st)
                 | ObjectF kvs # st' \<Rightarrow> Some (Key, st)
                 | _ \<Rightarrow> None)
              else if t = TRBracket then close_array st
              else if t = TRBrace then close_object st
              else None)
         | Finished v \<Rightarrow> None))"

text \<open>The containers that are open.\<close>

definition depth :: "frame list \<Rightarrow> nat" where
  "depth st = length (filter (\<lambda>f. case f of KeyF k \<Rightarrow> False | _ \<Rightarrow> True) st)"

text \<open>
  What the interpreter raises when a token is read where a value is expected: a
  container that would be nested too deep, an integer with too many digits.
\<close>

definition limit :: "interpreter \<Rightarrow> expect \<times> frame list \<Rightarrow> token \<Rightarrow> exn option" where
  "limit lim c t =
     (case c of (e, st) \<Rightarrow>
        if e = Value \<or> e = ValueOrEnd then
          (case t of
             TLBracket \<Rightarrow> if max_depth lim \<le> depth st then Some RecursionError else None
           | TLBrace \<Rightarrow> if max_depth lim \<le> depth st then Some RecursionError else None
           | TInt n k \<Rightarrow>
               if max_digits lim \<noteq> 0 \<and> max_digits lim < k then Some ValueError else None
           | _ \<Rightarrow> None)
        else None)"

fun run ::
  "interpreter \<Rightarrow> expect \<times> frame list \<Rightarrow> token list \<Rightarrow> exn + (expect \<times> frame list)" where
  "run lim c [] = Inr c"
| "run lim c (t # ts) =
     (case limit lim c t of
        Some e \<Rightarrow> Inl e
      | None \<Rightarrow>
          (case step c t of
             None \<Rightarrow> Inl JSONDecodeError
           | Some c' \<Rightarrow> run lim c' ts))"

text \<open>
  \<open>json.loads(s)\<close>: the value, or the first exception.  A text that ends before the
  value does is a \<open>JSONDecodeError\<close>.
\<close>

definition json_loads :: "interpreter \<Rightarrow> str \<Rightarrow> exn + json" where
  "json_loads lim s =
     (case run lim (Value, []) (tokenize s) of
        Inl e \<Rightarrow> Inl e
      | Inr (Finished v, st) \<Rightarrow> Inr v
      | Inr _ \<Rightarrow> Inl JSONDecodeError)"

section \<open>The response extractor\<close>

subsection \<open>The two regular expressions\<close>

text \<open>
  \<^verbatim>\<open>re.search(r'"([^"]+\?)"', response_text)\<close>, with the group of the match.  A match
  starts at a quote; the group cannot hold a quote, so it is the text up to the next
  quote, which must hold at least two characters and end with a question mark.  The
  search returns the match that starts first.
\<close>

fun search_quoted_question :: "str \<Rightarrow> str option" where
  "search_quoted_question [] = None"
| "search_quoted_question (c # cs) =
     (let body = takeWhile (\<lambda>x. x \<noteq> ord CHR 0x22) cs;
          rest = dropWhile (\<lambda>x. x \<noteq> ord CHR 0x22) cs
      in if c = ord CHR 0x22 \<and> rest \<noteq> [] \<and> 2 \<le> length body \<and> last body = ord CHR ''?''
         then Some body
         else search_quoted_question cs)"

text \<open>
  \<^verbatim>\<open>re.search(r'([^.!?]+\?)', response_text)\<close>, with the group of the match.  A match
  starts at a character that is none of \<open>.\<close>, \<open>!\<close>, \<open>?\<close>; the greedy run of such
  characters from there must be followed at once by a question mark.
\<close>

definition terminator :: "nat \<Rightarrow> bool" where
  "terminator c \<longleftrightarrow> c = ord CHR ''.'' \<or> c = ord CHR ''!'' \<or> c = ord CHR ''?''"

fun search_question_sentence :: "str \<Rightarrow> str option" where
  "search_question_sentence [] = None"
| "search_question_sentence (c # cs) =
     (let body = takeWhile (\<lambda>x. \<not> terminator x) (c # cs);
          rest = dropWhile (\<lambda>x. \<not> terminator x) (c # cs)
      in if body \<noteq> [] \<and> take 1 rest = [ord CHR ''?'']
         then Some (body @ [ord CHR ''?''])
         else search_question_sentence cs)"

subsection \<open>\<open>extract_question_from_response\<close>\<close>

text \<open>
  Lines 65 to 70: the \<open>try\<close> block.  \<open>Some v\<close> is the \<open>return\<close> inside it; \<open>None\<close> is
  falling through to the searches.  Only \<open>JSONDecodeError\<close> is caught.
\<close>

definition try_json :: "interpreter \<Rightarrow> str \<Rightarrow> exn + json option" where
  "try_json lim response_text =
     (case json_loads lim response_text of
        Inr response_json \<Rightarrow>
          (case response_json of
             JObject d \<Rightarrow> Inr (dict_get d (py ''question''))
           | _ \<Rightarrow> Inr None)
      | Inl e \<Rightarrow> if e = JSONDecodeError then Inr None else Inl e)"

text \<open>
  The function returns whatever the \<open>question\<close> member holds, a string or not; the
  results of the searches and of the fallback are strings.
\<close>

definition extract_question_from_response :: "interpreter \<Rightarrow> str \<Rightarrow> exn + json" where
  "extract_question_from_response lim response_text =
     (case try_json lim response_text of
        Inl e \<Rightarrow> Inl e
      | Inr (Some v) \<Rightarrow> Inr v
      | Inr None \<Rightarrow>
          (case search_quoted_question response_text of
             Some m \<Rightarrow> Inr (JString m)
           | None \<Rightarrow>
               (case search_question_sentence response_text of
                  Some m \<Rightarrow> Inr (JString (strip m))
                | None \<Rightarrow> Inr (JString (strip response_text)))))"

text \<open>
  Lines 149 and 150, and 265 and 266: \<open>if not q.endswith('?'): q += '?'\<close>.  Only a
  \<open>str\<close> has \<open>endswith\<close>.
\<close>

definition ensure_question_mark :: "json \<Rightarrow> exn + str" where
  "ensure_question_mark v =
     (case v of
        JString q \<Rightarrow> Inr (if endswith q (py ''?'') then q else q @ py ''?'')
      | _ \<Rightarrow> Inl AttributeError)"

text \<open>
  Lines 143 to 150, and 260 to 266: from the text of a completion to the question that
  is stored.
\<close>

definition question_of_completion :: "interpreter \<Rightarrow> str \<Rightarrow> exn + str" where
  "question_of_completion lim content =
     (case extract_question_from_response lim (strip content) of
        Inl e \<Rightarrow> Inl e
      | Inr v \<Rightarrow> ensure_question_mark v)"

subsection \<open>Feedback extraction\<close>

text \<open>\<open>key in feedback\<close> for a string key and a decoded value.\<close>

definition key_in :: "str \<Rightarrow> json \<Rightarrow> exn + bool" where
  "key_in k v =
     (case v of
        JObject d \<Rightarrow> Inr (dict_get d k \<noteq> None)
      | JArray vs \<Rightarrow> Inr (JString k \<in> set vs)
      | JString t \<Rightarrow> Inr (contains t k)
      | _ \<Rightarrow> Inl TypeError)"

definition required_keys :: "str list" where
  "required_keys =
     [py ''score'', py ''technical_feedback'', py ''communication_feedback'', py ''improvements'']"

text \<open>\<open>all(key in feedback for key in keys)\<close>: it stops at the first \<open>False\<close>.\<close>

fun all_keys_in :: "str list \<Rightarrow> json \<Rightarrow> exn + bool" where
  "all_keys_in [] v = Inr True"
| "all_keys_in (k # ks) v =
     (case key_in k v of
        Inl e \<Rightarrow> Inl e
      | Inr b \<Rightarrow> if b then all_keys_in ks v else Inr False)"

text \<open>Lines 325 to 342 of \<open>generate_feedback\<close>, before the handlers.\<close>

definition extract_feedback :: "interpreter \<Rightarrow> str \<Rightarrow> exn + json" where
  "extract_feedback lim content =
     (let response_content = strip content;
          start_idx = find response_content (ord CHR ''{'');
          end_idx = rfind response_content (ord CHR ''}'')
      in if start_idx \<noteq> -1 \<and> end_idx \<noteq> -1 then
           (case json_loads lim (slice response_content start_idx (end_idx + 1)) of
              Inl e \<Rightarrow> Inl e
            | Inr feedback \<Rightarrow>
                (case all_keys_in required_keys feedback of
                   Inl e \<Rightarrow> Inl e
                 | Inr b \<Rightarrow> if b then Inr feedback else Inl ValueError))
         else Inl ValueError)"

section \<open>The interview state and the four endpoints\<close>

text \<open>
  \<open>InterviewState\<close>: the one, process-wide instance.  A turn of the conversation history
  is its role and its content.
\<close>

record interview_state =
  questions :: "str list"
  answers :: "str list"
  current_question :: int
  resume_text :: str
  conversation_history :: "(str \<times> str) list"

text \<open>\<open>InterviewState()\<close>.\<close>

definition init_state :: interview_state where
  "init_state =
     \<lparr>questions = [], answers = [], current_question = 0, resume_text = [],
      conversation_history = []\<rparr>"

text \<open>
  The external services are inputs of the model.  A completion of the language model, a
  transcript and a synthesised audio are \<open>Some\<close> text, or \<open>None\<close> when the call raised
  (or its reply holds no text).  The prompts sent to the language model are not built:
  no reply depends on them here.
\<close>

datatype pdf = Unreadable | NoText | Pages str

datatype next_question =
    Completed
  | Ask (question: str) (audio: str) (question_number: int) (total_questions: int)

text \<open>\<open>except Exception as e: raise HTTPException(status_code=500, ...)\<close>.\<close>

definition handle_any :: "exn \<Rightarrow> exn" where
  "handle_any e = HTTPException 500"

text \<open>
  The two handlers that end \<open>upload_resume\<close> (lines 166 to 170): an \<open>HTTPException\<close> is
  raised again as it is, anything else becomes a 500.
\<close>

definition handle_http :: "exn \<Rightarrow> exn" where
  "handle_http e = (case e of HTTPException c \<Rightarrow> HTTPException c | _ \<Rightarrow> handle_any e)"

text \<open>
  Lines 234 to 237 and 295 to 297: the questions and answers paired by index, for every
  index of \<open>answers\<close>.  \<open>questions[i]\<close> raises when there are fewer questions.
\<close>

definition conversation :: "interview_state \<Rightarrow> exn + (str \<times> str) list" where
  "conversation s =
     (if length (answers s) \<le> length (questions s)
      then Inr (zip (questions s) (answers s))
      else Inl IndexError)"

subsection \<open>\<open>upload_resume\<close>\<close>

text \<open>Lines 116 to 120.\<close>

definition reset :: "str \<Rightarrow> interview_state \<Rightarrow> interview_state" where
  "reset text s =
     s\<lparr>resume_text := text, conversation_history := [], questions := [], answers := [],
       current_question := 0\<rparr>"

text \<open>Lines 152 and 153, and 268 and 269.\<close>

definition add_question :: "str \<Rightarrow> interview_state \<Rightarrow> interview_state" where
  "add_question q s =
     s\<lparr>questions := questions s @ [q],
       conversation_history := conversation_history s @ [(py ''assistant'', q)]\<rparr>"

text \<open>
  Lines 113 to 164: the session is started from the text of the resume.  The state is
  reset before the language model is asked, and stays reset when that fails.
\<close>

definition start_session ::
  "interpreter \<Rightarrow> str \<Rightarrow> str option \<Rightarrow> interview_state \<Rightarrow> (exn + str) \<times> interview_state" where
  "start_session lim text groq s =
     (if strip text = [] then (Inl (HTTPException 400), s)
      else
        (let s1 = reset text s
         in case groq of
              None \<Rightarrow> (Inl (handle_any ServiceError), s1)
            | Some content \<Rightarrow>
                (case question_of_completion lim content of
                   Inl e \<Rightarrow> (Inl (handle_any (handle_any e)), s1)
                 | Inr first_question \<Rightarrow> (Inr first_question, add_question first_question s1))))"

text \<open>
  The endpoint: the file name, the bytes of the file, what PyPDF2 makes of them, and the
  reply of the language model.
\<close>

definition upload_resume ::
  "interpreter \<Rightarrow> str option \<Rightarrow> nat list \<Rightarrow> pdf \<Rightarrow> str option \<Rightarrow> interview_state \<Rightarrow>
     (exn + str) \<times> interview_state" where
  "upload_resume lim filename content doc groq s =
     (case (case filename of
              None \<Rightarrow> (Inl AttributeError, s)
            | Some name \<Rightarrow>
                if \<not> endswith name (py ''.pdf'') then (Inl (HTTPException 400), s)
                else if content = [] then (Inl (HTTPException 400), s)
                else
                  (case doc of
                     Unreadable \<Rightarrow> (Inl (HTTPException 400), s)
                   | NoText \<Rightarrow> (Inl (HTTPException 400), s)
                   | Pages text \<Rightarrow> start_session lim text groq s)) of
        (Inl e, s') \<Rightarrow> (Inl (handle_http e), s')
      | (Inr q, s') \<Rightarrow> (Inr q, s'))"

subsection \<open>\<open>get_next_question\<close>\<close>

text \<open>Lines 175 to 201, before the handler of line 203.\<close>

definition next_question_body :: "str option \<Rightarrow> interview_state \<Rightarrow> exn + next_question" where
  "next_question_body tts s =
     (if questions s = [] then Inl (HTTPException 400)
      else if current_question s \<ge> 3 then Inr Completed
      else
        (case index (questions s) (current_question s) of
           Inl e \<Rightarrow> Inl e
         | Inr q \<Rightarrow>
             (case tts of
                None \<Rightarrow> Inl (handle_any ServiceError)
              | Some audio_base64 \<Rightarrow> Inr (Ask q audio_base64 (current_question s + 1) 3))))"

definition get_next_question ::
  "str option \<Rightarrow> interview_state \<Rightarrow> (exn + next_question) \<times> interview_state" where
  "get_next_question tts s =
     (case next_question_body tts s of
        Inl e \<Rightarrow> (Inl (handle_any e), s)
      | Inr r \<Rightarrow> (Inr r, s))"

subsection \<open>\<open>transcribe_audio\<close>\<close>

text \<open>Lines 227 and 228.\<close>

definition add_answer :: "str \<Rightarrow> interview_state \<Rightarrow> interview_state" where
  "add_answer transcript s =
     s\<lparr>answers := answers s @ [transcript],
       conversation_history := conversation_history s @ [(py ''user'', transcript)]\<rparr>"

text \<open>Lines 232 to 266: the follow-up question, or the exception that line 272 catches.\<close>

definition follow_up :: "interpreter \<Rightarrow> str option \<Rightarrow> interview_state \<Rightarrow> exn + str" where
  "follow_up lim groq s =
     (case conversation s of
        Inl e \<Rightarrow> Inl e
      | Inr conversation_text \<Rightarrow>
          (case groq of
             None \<Rightarrow> Inl ServiceError
           | Some content \<Rightarrow> question_of_completion lim content))"

text \<open>
  Lines 226 to 277: the answer is submitted.  The transcript is stored first; the
  counter moves in line 276, which an exception of the follow-up never reaches.
\<close>

definition submit_answer ::
  "interpreter \<Rightarrow> str \<Rightarrow> str option \<Rightarrow> interview_state \<Rightarrow> (exn + str) \<times> interview_state" where
  "submit_answer lim transcript groq s =
     (let s1 = add_answer transcript s
      in if current_question s1 < 2 then
           (case follow_up lim groq s1 of
              Inl e \<Rightarrow> (Inl (handle_any e), s1)
            | Inr next_question \<Rightarrow>
                (let s2 = add_question next_question s1
                 in (Inr transcript, s2\<lparr>current_question := current_question s2 + 1\<rparr>)))
         else (Inr transcript, s1\<lparr>current_question := current_question s1 + 1\<rparr>))"

text \<open>
  The endpoint: the file name, the bytes of the recording, the transcript of Deepgram,
  and the reply of the language model.  Every exception, the two 400s among them, leaves
  through the handlers of lines 279 and 283.
\<close>

definition transcribe_audio ::
  "interpreter \<Rightarrow> str option \<Rightarrow> nat list \<Rightarrow> str option \<Rightarrow> str option \<Rightarrow> interview_state \<Rightarrow>
     (exn + str) \<times> interview_state" where
  "transcribe_audio lim filename audio_data deepgram groq s =
     (case (if filename = None \<or> filename = Some [] then (Inl (HTTPException 400), s)
            else if audio_data = [] then (Inl (HTTPException 400), s)
            else
              (case deepgram of
                 None \<Rightarrow> (Inl (handle_any ServiceError), s)
               | Some transcript \<Rightarrow>
                   (case submit_answer lim transcript groq s of
                      (Inl e, s') \<Rightarrow> (Inl (handle_any e), s')
                    | (Inr r, s') \<Rightarrow> (Inr r, s')))) of
        (Inl e, s') \<Rightarrow> (Inl (handle_any e), s')
      | (Inr r, s') \<Rightarrow> (Inr r, s'))"

subsection \<open>\<open>generate_feedback\<close>\<close>

text \<open>
  Lines 290 to 353, before the handler of line 355.  The handlers of lines 344, 347 and
  351 each raise a 500.
\<close>

definition feedback_body :: "interpreter \<Rightarrow> str option \<Rightarrow> interview_state \<Rightarrow> exn + json" where
  "feedback_body lim groq s =
     (if length (answers s) = 0 then Inl (HTTPException 400)
      else
        (case conversation s of
           Inl e \<Rightarrow> Inl e
         | Inr conversation_text \<Rightarrow>
             (case groq of
                None \<Rightarrow> Inl (handle_any ServiceError)
              | Some content \<Rightarrow>
                  (case extract_feedback lim content of
                     Inl e \<Rightarrow> Inl (handle_any (handle_any e))
                   | Inr feedback \<Rightarrow> Inr feedback))))"

definition generate_feedback ::
  "interpreter \<Rightarrow> str option \<Rightarrow> interview_state \<Rightarrow> (exn + json) \<times> interview_state" where
  "generate_feedback lim groq s =
     (case feedback_body lim groq s of
        Inl e \<Rightarrow> (Inl (handle_any e), s)
      | Inr feedback \<Rightarrow> (Inr feedback, s))"

subsection \<open>Reachable states\<close>

text \<open>
  The states the server can be in: the initial one, and every state one of the four
  endpoints leaves behind, whatever the request and whatever the services answer.
\<close>

inductive reachable :: "interview_state \<Rightarrow> bool" where
  initial: "reachable init_state"
| upload: "reachable s \<Longrightarrow> reachable (snd (upload_resume lim filename content doc groq s))"
| next_q: "reachable s \<Longrightarrow> reachable (snd (get_next_question tts s))"
| transcribe:
    "reachable s \<Longrightarrow> reachable (snd (transcribe_audio lim filename audio_data deepgram groq s))"
| feedback: "reachable s \<Longrightarrow> reachable (snd (generate_feedback lim groq s))"

section \<open>How the endpoints change the state\<close>

lemma follow_up_needs_question:
  "follow_up lim groq s = Inr q \<Longrightarrow> length (answers s) \<le> length (questions s)"
  by (auto simp: follow_up_def conversation_def split: if_splits)

lemma submit_answer_cases:
  assumes "submit_answer lim transcript groq s = (r, s')"
  obtains
    (generated) q where "current_question s < 2"
      "follow_up lim groq (add_answer transcript s) = Inr q" "r = Inr transcript"
      "s' = (add_question q (add_answer transcript s))\<lparr>current_question := current_question s + 1\<rparr>"
  | (last) "2 \<le> current_question s" "r = Inr transcript"
      "s' = (add_answer transcript s)\<lparr>current_question := current_question s + 1\<rparr>"
  | (failed) e where "current_question s < 2"
      "follow_up lim groq (add_answer transcript s) = Inl e" "r = Inl (HTTPException 500)"
      "s' = add_answer transcript s"
  using assms
  by (auto simp: submit_answer_def Let_def add_answer_def add_question_def handle_any_def
        split: if_splits sum.splits)

definition session_inv :: "interview_state \<Rightarrow> bool" where
  "session_inv s \<longleftrightarrow>
     0 \<le> current_question s \<and> current_question s \<le> int (length (answers s)) \<and>
     (if questions s = [] then current_question s = 0
      else int (length (questions s)) = min (current_question s + 1) 3)"

lemma session_inv_submit:
  assumes "session_inv s"
  shows "session_inv (snd (submit_answer lim transcript groq s))"
proof -
  obtain r s' where eq: "submit_answer lim transcript groq s = (r, s')"
    by (cases "submit_answer lim transcript groq s")
  from eq have "session_inv s'"
  proof (cases rule: submit_answer_cases)
    case (generated q)
    from follow_up_needs_question [OF generated(2)]
    have "questions s \<noteq> []" by (auto simp: add_answer_def)
    with assms generated show ?thesis
      by (auto simp: session_inv_def add_answer_def add_question_def)
  next
    case last
    with assms show ?thesis
      by (auto simp: session_inv_def add_answer_def split: if_splits)
  next
    case (failed e)
    with assms show ?thesis
      by (auto simp: session_inv_def add_answer_def split: if_splits)
  qed
  with eq show ?thesis by simp
qed

lemma transcribe_audio_state:
  "snd (transcribe_audio lim filename audio_data deepgram groq s) =
     (if filename = None \<or> filename = Some [] \<or> audio_data = [] then s
      else case deepgram of None \<Rightarrow> s | Some transcript \<Rightarrow> snd (submit_answer lim transcript groq s))"
  by (cases deepgram; cases "submit_answer lim (the deepgram) groq s";
      cases "fst (submit_answer lim (the deepgram) groq s)")
    (simp_all add: transcribe_audio_def)

lemma start_session_state:
  "snd (start_session lim resume groq s) = s \<or>
   snd (start_session lim resume groq s) = reset resume s \<or>
   (\<exists>q. snd (start_session lim resume groq s) = add_question q (reset resume s))"
  by (auto simp: start_session_def Let_def split: option.splits sum.splits)

lemma session_inv_start:
  assumes "session_inv s"
  shows "session_inv (snd (start_session lim resume groq s))"
  using assms start_session_state [of lim resume groq s]
  by (auto simp: session_inv_def reset_def add_question_def)

lemma upload_resume_state:
  "snd (upload_resume lim filename content doc groq s) =
     (case (filename, doc) of
        (Some name, Pages resume) \<Rightarrow>
          if endswith name (py ''.pdf'') \<and> content \<noteq> []
          then snd (start_session lim resume groq s) else s
      | _ \<Rightarrow> s)"
proof (cases doc)
  case (Pages resume)
  then show ?thesis
    by (cases "start_session lim resume groq s"; cases "fst (start_session lim resume groq s)")
      (simp_all add: upload_resume_def split: option.splits)
qed (simp_all add: upload_resume_def split: option.splits)

lemma get_next_question_state: "snd (get_next_question tts s) = s"
  by (simp add: get_next_question_def split: sum.splits)

lemma generate_feedback_state: "snd (generate_feedback lim groq s) = s"
  by (simp add: generate_feedback_def split: sum.splits)

lemma reachable_session_inv: "reachable s \<Longrightarrow> session_inv s"
proof (induction rule: reachable.induct)
  case initial
  show ?case by (simp add: session_inv_def init_state_def)
next
  case (upload s filename content doc groq)
  then show ?case
    by (simp add: upload_resume_state session_inv_start split: option.splits pdf.splits)
next
  case (next_q s tts)
  then show ?case by (simp add: get_next_question_state)
next
  case (transcribe s filename audio_data deepgram groq)
  then show ?case
    by (simp add: transcribe_audio_state session_inv_submit split: option.splits)
next
  case (feedback s groq)
  then show ?case by (simp add: generate_feedback_state)
qed

section \<open>A sample interview\<close>

text \<open>
  Concrete requests and replies, used to run the model: a resume, a reply of the language
  model that is already a question, and a transcribed answer.
\<close>

definition mutex_question :: str where
  "mutex_question = py ''What is a mutex?''"

definition demo_resume :: str where
  "demo_resume = py ''Python developer''"

definition a_lock :: str where
  "a_lock = py ''A lock''"

definition demo_reply :: "str option" where
  "demo_reply = Some mutex_question"

definition demo_upload :: "interview_state \<Rightarrow> interview_state" where
  "demo_upload s =
     snd (upload_resume cpython (Some (py ''cv.pdf'')) [37] (Pages demo_resume) demo_reply s)"

definition demo_answer :: "str option \<Rightarrow> interview_state \<Rightarrow> interview_state" where
  "demo_answer groq s =
     snd (transcribe_audio cpython (Some (py ''answer.wav'')) [82] (Some a_lock) groq s)"

lemma json_loads_plain: "json_loads cpython mutex_question = Inl JSONDecodeError"
  by (simp add: mutex_question_def json_loads_def scan_number_def isdigit_def limit_def
        step_def value_step_def)

lemma strip_mutex_question: "strip mutex_question = mutex_question"
  by (simp add: mutex_question_def strip_def isspace_def)

lemma search_mutex_question:
  "search_quoted_question mutex_question = None"
  "search_question_sentence mutex_question = Some mutex_question"
  by (simp_all add: mutex_question_def terminator_def)

lemma endswith_mutex_question: "endswith mutex_question (py ''?'')"
  by (simp add: mutex_question_def endswith_def)

lemma strip_demo_resume: "strip demo_resume \<noteq> []"
  by (simp add: demo_resume_def strip_def isspace_def)

lemma demo_question: "question_of_completion cpython mutex_question = Inr mutex_question"
  by (simp add: question_of_completion_def extract_question_from_response_def try_json_def
        json_loads_plain strip_mutex_question search_mutex_question ensure_question_mark_def
        endswith_mutex_question [simplified])

lemma demo_upload_eq:
  "demo_upload s =
     add_question mutex_question (reset demo_resume s)"
  by (simp add: demo_upload_def upload_resume_def start_session_def demo_reply_def
        demo_question endswith_def strip_demo_resume Let_def)

lemma demo_answer_eq: "demo_answer groq s = snd (submit_answer cpython a_lock groq s)"
  by (simp add: demo_answer_def transcribe_audio_state)

lemma demo_follow_up:
  "follow_up cpython demo_reply s =
     (if length (answers s) \<le> length (questions s) then Inr mutex_question
      else Inl IndexError)"
  by (simp add: follow_up_def conversation_def demo_reply_def demo_question)

lemma demo_submit:
  "submit_answer cpython transcript demo_reply s =
     (if current_question s < 2 then
        if length (answers s) < length (questions s)
        then (Inr transcript,
              (add_question mutex_question (add_answer transcript s))
                \<lparr>current_question := current_question s + 1\<rparr>)
        else (Inl (HTTPException 500), add_answer transcript s)
      else (Inr transcript, (add_answer transcript s)\<lparr>current_question := current_question s + 1\<rparr>))"
  by (simp add: submit_answer_def Let_def demo_follow_up handle_any_def)
    (simp add: add_answer_def add_question_def)


lemma reachable_demo_answer: "reachable s \<Longrightarrow> reachable (demo_answer groq s)"
  unfolding demo_answer_def by (rule reachable.transcribe)

definition demo_started :: interview_state where
  "demo_started = demo_upload init_state"

lemma demo_started_eq:
  "demo_started =
     \<lparr>questions = [mutex_question], answers = [], current_question = 0,
      resume_text = demo_resume,
      conversation_history = [(py ''assistant'', mutex_question)]\<rparr>"
  by (simp add: demo_started_def demo_upload_eq reset_def add_question_def init_state_def)


section \<open>Properties of the session\<close>

subsection \<open>Submitting an answer\<close>

text \<open>
  Claim C1, as amended.  Submitting an answer appends exactly that transcript to
  \<open>answers\<close>, whether the follow-up question can be generated or not, and nothing
  takes it back.  The counter \<open>current_question\<close> grows by exactly one when the call
  returns the transcript; when the call fails it keeps its value.  The call fails
  exactly when a follow-up is due (\<open>current_question < 2\<close>) and generating it raises.
\<close>

theorem submit_answer_effect:
  "answers (snd (submit_answer lim transcript groq s)) = answers s @ [transcript] \<and>
   (fst (submit_answer lim transcript groq s) = Inr transcript \<longrightarrow>
      current_question (snd (submit_answer lim transcript groq s)) = current_question s + 1) \<and>
   (\<forall>e. fst (submit_answer lim transcript groq s) = Inl e \<longrightarrow>
      current_question (snd (submit_answer lim transcript groq s)) = current_question s) \<and>
   ((\<exists>e. fst (submit_answer lim transcript groq s) = Inl e) \<longleftrightarrow>
      current_question s < 2 \<and> (\<exists>e. follow_up lim groq (add_answer transcript s) = Inl e))"
proof -
  obtain r s' where eq: "submit_answer lim transcript groq s = (r, s')"
    by (cases "submit_answer lim transcript groq s")
  then show ?thesis
    by (cases rule: submit_answer_cases) (simp_all add: eq add_answer_def add_question_def)
qed

text \<open>
  The theorem at the sample session: with no reply of the language model the call fails
  and the counter stays at 0, with a reply it succeeds and the counter is 1; the answer
  is stored both times.
\<close>

theorem submit_answer_effect_witness:
  "fst (submit_answer cpython a_lock None demo_started) = Inl (HTTPException 500) \<and>
   current_question (snd (submit_answer cpython a_lock None demo_started)) = 0 \<and>
   answers (snd (submit_answer cpython a_lock None demo_started)) = [a_lock] \<and>
   fst (submit_answer cpython a_lock demo_reply demo_started) = Inr a_lock \<and>
   current_question (snd (submit_answer cpython a_lock demo_reply demo_started)) = 1 \<and>
   answers (snd (submit_answer cpython a_lock demo_reply demo_started)) = [a_lock]"
proof -
  have failed: "fst (submit_answer cpython a_lock None demo_started) = Inl (HTTPException 500)"
    by (simp add: submit_answer_def Let_def follow_up_def conversation_def add_answer_def
          demo_started_eq handle_any_def)
  have passed: "fst (submit_answer cpython a_lock demo_reply demo_started) = Inr a_lock"
    by (simp add: demo_submit demo_started_eq)
  have start: "current_question demo_started = 0" "answers demo_started = []"
    by (simp_all add: demo_started_eq)
  show ?thesis
    using submit_answer_effect [of cpython a_lock None demo_started]
      submit_answer_effect [of cpython a_lock demo_reply demo_started]
      failed passed start
    by simp
qed

text \<open>
  Claim C1 as the specification states it does not hold: after a failed follow-up the
  answer is stored but the counter has not moved.
\<close>

theorem submit_answer_failure_counterexample:
  "fst (submit_answer cpython a_lock None demo_started) = Inl (HTTPException 500) \<and>
   current_question (snd (submit_answer cpython a_lock None demo_started))
     \<noteq> current_question demo_started + 1"
  by (simp add: submit_answer_def Let_def follow_up_def conversation_def add_answer_def
        demo_started_eq handle_any_def)

subsection \<open>The range of the counter\<close>

lemma submit_answer_counter:
  "current_question (snd (submit_answer lim transcript groq s)) = current_question s \<or>
   current_question (snd (submit_answer lim transcript groq s)) = current_question s + 1"
proof -
  obtain r s' where eq: "submit_answer lim transcript groq s = (r, s')"
    by (cases "submit_answer lim transcript groq s")
  then show ?thesis
    by (cases rule: submit_answer_cases) (simp_all add: eq add_answer_def add_question_def)
qed

text \<open>
  The states reached when no answer is submitted after the interview is completed: the
  same steps as \<open>reachable\<close>, with \<open>transcribe_audio\<close> called only while
  \<open>current_question < 3\<close>.
\<close>

inductive within_rounds :: "interview_state \<Rightarrow> bool" where
  initial: "within_rounds init_state"
| upload: "within_rounds s \<Longrightarrow> within_rounds (snd (upload_resume lim filename content doc groq s))"
| next_q: "within_rounds s \<Longrightarrow> within_rounds (snd (get_next_question tts s))"
| transcribe:
    "within_rounds s \<Longrightarrow> current_question s < 3 \<Longrightarrow>
     within_rounds (snd (transcribe_audio lim filename audio_data deepgram groq s))"
| feedback: "within_rounds s \<Longrightarrow> within_rounds (snd (generate_feedback lim groq s))"

lemma within_rounds_reachable: "within_rounds s \<Longrightarrow> reachable s"
  by (induction rule: within_rounds.induct) (auto intro: reachable.intros)

lemma start_session_counter:
  "current_question (snd (start_session lim resume groq s)) = current_question s \<or>
   current_question (snd (start_session lim resume groq s)) = 0"
  using start_session_state [of lim resume groq s]
  by (auto simp: reset_def add_question_def)

lemma start_session_bound:
  "current_question s \<le> 3 \<Longrightarrow> current_question (snd (start_session lim resume groq s)) \<le> 3"
  using start_session_counter [of lim resume groq s] by auto

lemma submit_answer_bound:
  "current_question s < 3 \<Longrightarrow> current_question (snd (submit_answer lim transcript groq s)) \<le> 3"
  using submit_answer_counter [of lim transcript groq s] by auto

lemma within_rounds_bound: "within_rounds s \<Longrightarrow> current_question s \<le> 3"
proof (induction rule: within_rounds.induct)
  case initial
  show ?case by (simp add: init_state_def)
next
  case (upload s filename content doc groq)
  then show ?case
    by (simp add: upload_resume_state start_session_bound split: option.splits pdf.splits)
next
  case (next_q s tts)
  then show ?case by (simp add: get_next_question_state)
next
  case (transcribe s filename audio_data deepgram groq)
  then show ?case
    by (simp add: transcribe_audio_state submit_answer_bound split: option.splits)
next
  case (feedback s groq)
  then show ?case by (simp add: generate_feedback_state)
qed

lemma demo_round:
  "demo_answer demo_reply s =
     (if current_question s < 2 then
        if length (answers s) < length (questions s)
        then (add_question mutex_question (add_answer a_lock s))
               \<lparr>current_question := current_question s + 1\<rparr>
        else add_answer a_lock s
      else (add_answer a_lock s)\<lparr>current_question := current_question s + 1\<rparr>)"
  by (simp add: demo_answer_eq demo_submit)

definition demo_one :: interview_state where
  "demo_one = demo_answer demo_reply demo_started"

definition demo_two :: interview_state where
  "demo_two = demo_answer demo_reply demo_one"

definition demo_three :: interview_state where
  "demo_three = demo_answer demo_reply demo_two"

definition demo_four :: interview_state where
  "demo_four = demo_answer demo_reply demo_three"

lemma demo_one_fields:
  "current_question demo_one = 1" "length (answers demo_one) = 1"
  "length (questions demo_one) = 2"
  by (simp_all add: demo_one_def demo_round demo_started_eq add_answer_def add_question_def)

lemma demo_two_fields:
  "current_question demo_two = 2" "length (answers demo_two) = 2"
  "length (questions demo_two) = 3"
  by (simp_all add: demo_two_def demo_round demo_one_fields add_answer_def add_question_def)

lemma demo_three_fields:
  "current_question demo_three = 3" "length (answers demo_three) = 3"
  "length (questions demo_three) = 3"
  by (simp_all add: demo_three_def demo_round demo_two_fields add_answer_def add_question_def)

lemma demo_four_fields:
  "current_question demo_four = 4" "length (answers demo_four) = 4"
  "length (questions demo_four) = 3"
  by (simp_all add: demo_four_def demo_round demo_three_fields add_answer_def add_question_def)

lemma within_rounds_demo_started: "within_rounds demo_started"
  unfolding demo_started_def demo_upload_def
  by (intro within_rounds.upload within_rounds.initial)

lemma within_rounds_demo_answer:
  "within_rounds s \<Longrightarrow> current_question s < 3 \<Longrightarrow> within_rounds (demo_answer groq s)"
  unfolding demo_answer_def by (rule within_rounds.transcribe)

lemma within_rounds_demo_three: "within_rounds demo_three"
proof -
  have "within_rounds demo_one"
    unfolding demo_one_def
    by (rule within_rounds_demo_answer [OF within_rounds_demo_started])
      (simp add: demo_started_eq)
  then have "within_rounds demo_two"
    unfolding demo_two_def
    by (rule within_rounds_demo_answer) (simp add: demo_one_fields)
  then show ?thesis
    unfolding demo_three_def
    by (rule within_rounds_demo_answer) (simp add: demo_two_fields)
qed

lemma reachable_demo_four: "reachable demo_four"
  unfolding demo_four_def
  by (intro reachable_demo_answer within_rounds_reachable within_rounds_demo_three)

text \<open>
  Claim C2, as amended.  In every reachable state \<open>current_question\<close> is at least 0 and
  at most the number of recorded answers.  It stays within \<open>[0, 3]\<close> in the states
  reached without submitting an answer after the interview is completed; nothing in
  \<open>transcribe_audio\<close> stops the counter at 3.
\<close>

theorem current_question_range:
  "(reachable s \<longrightarrow>
      0 \<le> current_question s \<and> current_question s \<le> int (length (answers s))) \<and>
   (within_rounds s \<longrightarrow> 0 \<le> current_question s \<and> current_question s \<le> 3)"
  using reachable_session_inv [of s] within_rounds_bound [of s]
    within_rounds_reachable [of s]
  by (auto simp: session_inv_def)

text \<open>
  The theorem at the state after the resume and three answers: the state is reachable,
  no answer came after completion, and the counter is 3.
\<close>

theorem current_question_range_witness:
  "reachable demo_three \<and> within_rounds demo_three \<and>
   0 \<le> current_question demo_three \<and> current_question demo_three \<le> 3 \<and>
   current_question demo_three \<le> int (length (answers demo_three))"
  using current_question_range [of demo_three] within_rounds_demo_three
    within_rounds_reachable [OF within_rounds_demo_three]
  by simp

text \<open>
  Claim C2 as the specification states it does not hold: a fourth answer, submitted
  after the interview is completed, moves the counter to 4.
\<close>

theorem current_question_unbounded_counterexample:
  "reachable demo_four \<and> \<not> (0 \<le> current_question demo_four \<and> current_question demo_four \<le> 3)"
  by (simp add: reachable_demo_four demo_four_fields)

subsection \<open>Questions, answers and the counter\<close>

text \<open>
  The server waits for an answer: a resume was accepted, fewer than three answers were
  counted, and every answer that was stored was counted.
\<close>

definition awaiting_answer :: "interview_state \<Rightarrow> bool" where
  "awaiting_answer s \<longleftrightarrow>
     questions s \<noteq> [] \<and> current_question s < 3 \<and>
     int (length (answers s)) = current_question s"

text \<open>
  The states reached when answers are submitted in turn: the same steps as
  \<open>reachable\<close>, with \<open>transcribe_audio\<close> called only while the server waits for an
  answer.  The services may fail at every step.
\<close>

inductive in_turn :: "interview_state \<Rightarrow> bool" where
  initial: "in_turn init_state"
| upload: "in_turn s \<Longrightarrow> in_turn (snd (upload_resume lim filename content doc groq s))"
| next_q: "in_turn s \<Longrightarrow> in_turn (snd (get_next_question tts s))"
| transcribe:
    "in_turn s \<Longrightarrow> awaiting_answer s \<Longrightarrow>
     in_turn (snd (transcribe_audio lim filename audio_data deepgram groq s))"
| feedback: "in_turn s \<Longrightarrow> in_turn (snd (generate_feedback lim groq s))"

lemma in_turn_reachable: "in_turn s \<Longrightarrow> reachable s"
  by (induction rule: in_turn.induct) (auto intro: reachable.intros)

lemma start_session_answers:
  "length (answers s) \<le> length (questions s) \<Longrightarrow>
   length (answers (snd (start_session lim resume groq s))) \<le>
     length (questions (snd (start_session lim resume groq s)))"
  using start_session_state [of lim resume groq s]
  by (auto simp: reset_def add_question_def)

lemma submit_answer_in_turn:
  assumes "session_inv s" "awaiting_answer s"
  shows "length (answers (snd (submit_answer lim transcript groq s))) \<le>
     length (questions (snd (submit_answer lim transcript groq s)))"
proof -
  obtain r s' where eq: "submit_answer lim transcript groq s = (r, s')"
    by (cases "submit_answer lim transcript groq s")
  from eq have "length (answers s') \<le> length (questions s')"
    using assms
    by (cases rule: submit_answer_cases)
      (auto simp: session_inv_def awaiting_answer_def add_answer_def add_question_def
         split: if_splits)
  with eq show ?thesis by simp
qed

lemma in_turn_answers: "in_turn s \<Longrightarrow> length (answers s) \<le> length (questions s)"
proof (induction rule: in_turn.induct)
  case initial
  show ?case by (simp add: init_state_def)
next
  case (upload s lim filename content doc groq)
  then show ?case
    by (simp add: upload_resume_state start_session_answers split: option.splits pdf.splits)
next
  case (next_q s tts)
  then show ?case by (simp add: get_next_question_state)
next
  case (transcribe s lim filename audio_data deepgram groq)
  from transcribe(1) have "session_inv s"
    by (intro reachable_session_inv in_turn_reachable)
  with transcribe show ?case
    by (simp add: transcribe_audio_state submit_answer_in_turn split: option.splits)
next
  case (feedback s lim groq)
  then show ?case by (simp add: generate_feedback_state)
qed

lemma submit_answer_out_of_turn:
  assumes "session_inv s" "\<not> awaiting_answer s"
  shows "length (questions (snd (submit_answer lim transcript groq s))) <
     length (answers (snd (submit_answer lim transcript groq s)))"
proof -
  obtain r s' where eq: "submit_answer lim transcript groq s = (r, s')"
    by (cases "submit_answer lim transcript groq s")
  from eq have "length (questions s') < length (answers s')"
  proof (cases rule: submit_answer_cases)
    case (generated q)
    from follow_up_needs_question [OF generated(2)]
    have "length (answers s) < length (questions s)" by (simp add: add_answer_def)
    with assms generated show ?thesis
      by (auto simp: session_inv_def awaiting_answer_def split: if_splits)
  next
    case last
    with assms show ?thesis
      by (auto simp: session_inv_def awaiting_answer_def add_answer_def split: if_splits)
  next
    case (failed e)
    with assms show ?thesis
      by (auto simp: session_inv_def awaiting_answer_def add_answer_def split: if_splits)
  qed
  with eq show ?thesis by simp
qed

definition demo_failed :: interview_state where
  "demo_failed = demo_answer None demo_started"

definition demo_stuck :: interview_state where
  "demo_stuck = demo_answer demo_reply demo_failed"

lemma demo_failed_eq: "demo_answer None s =
  (if current_question s < 2 then add_answer a_lock s
   else (add_answer a_lock s)\<lparr>current_question := current_question s + 1\<rparr>)"
  by (simp add: demo_answer_eq submit_answer_def follow_up_def Let_def add_answer_def
        handle_any_def split: sum.splits)

lemma demo_failed_fields:
  "current_question demo_failed = 0" "length (answers demo_failed) = 1"
  "length (questions demo_failed) = 1"
  by (simp_all add: demo_failed_def demo_failed_eq demo_started_eq add_answer_def)

lemma demo_stuck_fields:
  "current_question demo_stuck = 0" "length (answers demo_stuck) = 2"
  "length (questions demo_stuck) = 1"
  by (simp_all add: demo_stuck_def demo_round demo_failed_fields add_answer_def)

lemma in_turn_demo_started: "in_turn demo_started"
  unfolding demo_started_def demo_upload_def
  by (intro in_turn.upload in_turn.initial)

lemma in_turn_demo_failed: "in_turn demo_failed"
  unfolding demo_failed_def demo_answer_def
  by (rule in_turn.transcribe [OF in_turn_demo_started])
    (simp add: awaiting_answer_def demo_started_eq)

lemma reachable_demo_stuck: "reachable demo_stuck"
  unfolding demo_stuck_def
  by (intro reachable_demo_answer in_turn_reachable in_turn_demo_failed)

lemma demo_stuck_submit: "snd (submit_answer cpython a_lock demo_reply demo_failed) = demo_stuck"
  by (simp add: demo_stuck_def demo_answer_eq)

text \<open>
  Claim C3, as amended.  In every reachable state, also after failures of the services,
  there are at most \<open>current_question + 1\<close> questions, and at most three.  There are
  no more answers than questions in every state reached with the answers submitted in
  turn, each while the server waits for one; a follow-up that fails on the way does not
  break this.  An answer submitted out of turn, in a reachable state where the server
  does not wait for one, always leaves more answers than questions.
\<close>

theorem questions_bound:
  "(reachable s \<longrightarrow>
      int (length (questions s)) \<le> current_question s + 1 \<and> length (questions s) \<le> 3) \<and>
   (in_turn s \<longrightarrow> length (answers s) \<le> length (questions s)) \<and>
   (reachable s \<and> \<not> awaiting_answer s \<longrightarrow>
      length (questions (snd (submit_answer lim transcript groq s))) <
        length (answers (snd (submit_answer lim transcript groq s))))"
  using reachable_session_inv [of s] in_turn_answers [of s]
    submit_answer_out_of_turn [of s lim transcript groq]
  by (auto simp: session_inv_def split: if_splits)

text \<open>
  The theorem at the state after the resume and one answer whose follow-up failed: one
  question, one answer, counter 0.  The state is reached in turn, the server does not
  wait for an answer there, and the next answer is the second for one question.
\<close>

theorem questions_bound_witness:
  "reachable demo_failed \<and> in_turn demo_failed \<and> \<not> awaiting_answer demo_failed \<and>
   int (length (questions demo_failed)) \<le> current_question demo_failed + 1 \<and>
   length (questions demo_failed) \<le> 3 \<and>
   length (answers demo_failed) \<le> length (questions demo_failed) \<and>
   length (questions (snd (submit_answer cpython a_lock demo_reply demo_failed))) <
     length (answers (snd (submit_answer cpython a_lock demo_reply demo_failed)))"
  using questions_bound [of demo_failed cpython a_lock demo_reply]
    in_turn_demo_failed in_turn_reachable [OF in_turn_demo_failed]
  by (simp add: awaiting_answer_def demo_failed_fields)

text \<open>
  Claim C3 as the specification states it does not hold: after one failed follow-up
  the next answer is stored as well, and two answers face one question.
\<close>

theorem answers_exceed_questions_counterexample:
  "reachable demo_stuck \<and>
   \<not> (length (answers demo_stuck) \<le> length (questions demo_stuck) \<and>
      int (length (questions demo_stuck)) \<le> current_question demo_stuck + 1)"
  by (simp add: reachable_demo_stuck demo_stuck_fields)

subsection \<open>Completion\<close>

lemma start_session_started:
  assumes "start_session lim resume groq s = (Inr q, s')"
  shows "s' = add_question q (reset resume s)"
  using assms
  by (auto simp: start_session_def Let_def split: if_splits option.splits sum.splits)

lemma submit_answer_passed:
  assumes "submit_answer lim transcript groq s = (Inr r, s')"
  shows "r = transcript \<and> current_question s' = current_question s + 1 \<and>
    length (questions s') = (if current_question s < 2 then length (questions s) + 1
                             else length (questions s))"
  using assms
  by (cases rule: submit_answer_cases) (simp_all add: add_answer_def add_question_def)

lemma submit_answer_last:
  assumes "2 \<le> current_question s"
  shows "submit_answer lim transcript groq s =
    (Inr transcript, (add_answer transcript s)\<lparr>current_question := current_question s + 1\<rparr>)"
  using assms by (simp add: submit_answer_def Let_def add_answer_def)

lemma get_next_question_completed:
  assumes "questions s \<noteq> []" "3 \<le> current_question s"
  shows "get_next_question tts s = (Inr Completed, s)"
  using assms by (simp add: get_next_question_def next_question_body_def)

lemma get_next_question_asks:
  assumes "0 \<le> current_question s" "current_question s < 3"
    "current_question s < int (length (questions s))"
  shows "get_next_question (Some a) s =
    (Inr (Ask (questions s ! nat (current_question s)) a (current_question s + 1) 3), s)"
  using assms by (auto simp: get_next_question_def next_question_body_def index_def)

lemma reachable_completed_has_questions:
  assumes "reachable s" "3 \<le> current_question s"
  shows "questions s \<noteq> []"
  using reachable_session_inv [OF assms(1)] assms(2)
  by (auto simp: session_inv_def split: if_splits)

lemma demo_start:
  "start_session cpython demo_resume demo_reply init_state = (Inr mutex_question, demo_started)"
  by (simp add: start_session_def strip_demo_resume Let_def demo_reply_def demo_question
        demo_started_def demo_upload_eq)

lemma demo_submit_one:
  "submit_answer cpython a_lock demo_reply demo_started = (Inr a_lock, demo_one)"
  by (simp add: demo_one_def demo_round demo_submit demo_started_eq)

lemma demo_submit_two:
  "submit_answer cpython a_lock demo_reply demo_one = (Inr a_lock, demo_two)"
  by (simp add: demo_two_def demo_round demo_submit demo_one_fields)

lemma demo_submit_three: "snd (submit_answer cpython a_lock None demo_two) = demo_three"
  by (simp add: demo_three_def demo_round submit_answer_last demo_two_fields)

lemma demo_questions:
  "questions demo_one = [mutex_question, mutex_question]"
  "questions demo_two = [mutex_question, mutex_question, mutex_question]"
  "questions demo_three = questions demo_two"
  by (simp_all add: demo_three_def demo_two_def demo_one_def demo_round demo_started_eq
        add_answer_def add_question_def)

text \<open>
  Three answers of which the first meets a language model that is down: the answers are
  stored, the follow-ups of the second and the third fail on the missing question, and
  the counter stays at 0.
\<close>

definition demo_lost :: interview_state where
  "demo_lost = demo_answer demo_reply demo_stuck"

lemma demo_lost_fields:
  "current_question demo_lost = 0" "length (answers demo_lost) = 3"
  "questions demo_lost = [mutex_question]"
  by (simp_all add: demo_lost_def demo_stuck_def demo_failed_def demo_round demo_failed_eq
        demo_started_eq add_answer_def)

lemma demo_lost_calls:
  "submit_answer cpython a_lock None demo_started = (Inl (HTTPException 500), demo_failed)"
  "submit_answer cpython a_lock demo_reply demo_failed = (Inl (HTTPException 500), demo_stuck)"
  "submit_answer cpython a_lock demo_reply demo_stuck = (Inl (HTTPException 500), demo_lost)"
  by (simp_all add: demo_lost_def demo_stuck_def demo_failed_def demo_round demo_failed_eq
        demo_submit demo_started_eq add_answer_def submit_answer_def follow_up_def
        conversation_def handle_any_def)

text \<open>
  Claim C7, as amended.  From the state a successful \<open>start_session\<close> leaves, let two
  answers be accepted.  Before each of the three answers \<open>get_next_question\<close> returns,
  when the speech is synthesised, the question with the number \<open>current_question + 1\<close>
  of 3, not the completion signal.  The third answer is accepted whatever the language
  model replies (it is not asked), adds no question to the three there are, and sets the
  counter to 3; \<open>get_next_question\<close> then returns the completion signal and changes
  nothing.  And in every reachable state with \<open>current_question \<ge> 3\<close>,
  \<open>get_next_question\<close> returns the completion signal: it takes no reply of the
  language model at all.
\<close>

theorem completed_after_three_answers:
  "(start_session lim resume g0 s0 = (Inr q, s1) \<and>
    submit_answer lim t1 g1 s1 = (Inr r1, s2) \<and>
    submit_answer lim t2 g2 s2 = (Inr r2, s3) \<longrightarrow>
      get_next_question (Some a) s1 = (Inr (Ask q a 1 3), s1) \<and>
      get_next_question (Some a) s2 = (Inr (Ask (questions s2 ! 1) a 2 3), s2) \<and>
      get_next_question (Some a) s3 = (Inr (Ask (questions s3 ! 2) a 3 3), s3) \<and>
      submit_answer lim t3 g3 s3 =
        (Inr t3, (add_answer t3 s3)\<lparr>current_question := 3\<rparr>) \<and>
      questions (snd (submit_answer lim t3 g3 s3)) = questions s3 \<and>
      length (questions s3) = 3 \<and>
      get_next_question tts (snd (submit_answer lim t3 g3 s3)) =
        (Inr Completed, snd (submit_answer lim t3 g3 s3))) \<and>
   (reachable s \<and> 3 \<le> current_question s \<longrightarrow>
      get_next_question tts s = (Inr Completed, s))"
proof (intro conjI impI)
  assume run: "start_session lim resume g0 s0 = (Inr q, s1) \<and>
    submit_answer lim t1 g1 s1 = (Inr r1, s2) \<and> submit_answer lim t2 g2 s2 = (Inr r2, s3)"
  from run have s1: "current_question s1 = 0" "questions s1 = [q]"
    by (auto dest!: start_session_started simp: add_question_def reset_def)
  from run s1 have s2: "current_question s2 = 1" "length (questions s2) = 2"
    by (auto dest!: submit_answer_passed)
  from run s2 have s3: "current_question s3 = 2" "length (questions s3) = 3"
    by (auto dest!: submit_answer_passed)
  from s1 show "get_next_question (Some a) s1 = (Inr (Ask q a 1 3), s1)"
    using get_next_question_asks [of s1 a] by simp
  from s2 show "get_next_question (Some a) s2 = (Inr (Ask (questions s2 ! 1) a 2 3), s2)"
    using get_next_question_asks [of s2 a] by simp
  from s3 show "get_next_question (Some a) s3 = (Inr (Ask (questions s3 ! 2) a 3 3), s3)"
    using get_next_question_asks [of s3 a] by simp
  from s3 show third: "submit_answer lim t3 g3 s3 =
      (Inr t3, (add_answer t3 s3)\<lparr>current_question := 3\<rparr>)"
    by (simp add: submit_answer_last)
  from third show "questions (snd (submit_answer lim t3 g3 s3)) = questions s3"
    by (simp add: add_answer_def)
  from s3 show "length (questions s3) = 3" by simp
  from s3 have "questions s3 \<noteq> []" by auto
  then show "get_next_question tts (snd (submit_answer lim t3 g3 s3)) =
      (Inr Completed, snd (submit_answer lim t3 g3 s3))"
    by (simp add: third get_next_question_completed add_answer_def)
next
  assume "reachable s \<and> 3 \<le> current_question s"
  then show "get_next_question tts s = (Inr Completed, s)"
    by (simp add: get_next_question_completed reachable_completed_has_questions)
qed

text \<open>
  The theorem at the sample interview: a question is returned before each answer, the
  third answer is submitted with no reply of the language model, and the state after a
  fourth answer is reachable with counter 4.
\<close>

theorem completed_after_three_answers_witness:
  "start_session cpython demo_resume demo_reply init_state = (Inr mutex_question, demo_started) \<and>
   submit_answer cpython a_lock demo_reply demo_started = (Inr a_lock, demo_one) \<and>
   submit_answer cpython a_lock demo_reply demo_one = (Inr a_lock, demo_two) \<and>
   get_next_question (Some a_lock) demo_started =
     (Inr (Ask mutex_question a_lock 1 3), demo_started) \<and>
   get_next_question (Some a_lock) demo_one = (Inr (Ask mutex_question a_lock 2 3), demo_one) \<and>
   get_next_question (Some a_lock) demo_two = (Inr (Ask mutex_question a_lock 3 3), demo_two) \<and>
   fst (submit_answer cpython a_lock None demo_two) = Inr a_lock \<and>
   snd (submit_answer cpython a_lock None demo_two) = demo_three \<and>
   questions demo_three = questions demo_two \<and>
   get_next_question None demo_three = (Inr Completed, demo_three) \<and>
   reachable demo_four \<and> 3 \<le> current_question demo_four \<and>
   get_next_question None demo_four = (Inr Completed, demo_four)"
  using completed_after_three_answers [of cpython demo_resume demo_reply init_state
      mutex_question demo_started a_lock demo_reply a_lock demo_one a_lock demo_reply a_lock
      demo_two a_lock a_lock None None demo_four]
    demo_start demo_submit_one demo_submit_two demo_submit_three reachable_demo_four
  by (simp add: demo_four_fields demo_questions)

text \<open>
  Claim C7 as the specification states it does not hold: after a successful start,
  three calls that submit an answer, the first while the language model is down, leave
  the counter at 0, and \<open>get_next_question\<close> returns the first question again.
\<close>

theorem three_answers_not_completed_counterexample:
  "start_session cpython demo_resume demo_reply init_state = (Inr mutex_question, demo_started) \<and>
   snd (submit_answer cpython a_lock None demo_started) = demo_failed \<and>
   snd (submit_answer cpython a_lock demo_reply demo_failed) = demo_stuck \<and>
   snd (submit_answer cpython a_lock demo_reply demo_stuck) = demo_lost \<and>
   length (answers demo_lost) = 3 \<and>
   get_next_question (Some a_lock) demo_lost =
     (Inr (Ask mutex_question a_lock 1 3), demo_lost) \<and>
   fst (get_next_question (Some a_lock) demo_lost) \<noteq> Inr Completed"
  by (simp add: demo_start demo_lost_calls demo_lost_fields get_next_question_def
        next_question_body_def index_def)

subsection \<open>A new resume\<close>

text \<open>
  Claim C8.  When \<open>upload_resume\<close> succeeds, the state it leaves holds the new resume
  text, the one new question, no answer, the counter 0 and a history of that one
  question: all five fields are set together, and the same request gives the same state
  from any other prior state, so nothing of the previous session remains.
\<close>

theorem upload_resume_resets:
  "upload_resume lim filename content doc groq s = (Inr q, s') \<Longrightarrow>
     (\<exists>resume. doc = Pages resume \<and>
        s' = \<lparr>questions = [q], answers = [], current_question = 0, resume_text = resume,
              conversation_history = [(py ''assistant'', q)]\<rparr>) \<and>
     upload_resume lim filename content doc groq s2 = (Inr q, s')"
proof -
  assume up: "upload_resume lim filename content doc groq s = (Inr q, s')"
  then obtain name resume where req: "filename = Some name" "endswith name (py ''.pdf'')"
      "content \<noteq> []" "doc = Pages resume"
    by (auto simp: upload_resume_def split: option.splits if_splits pdf.splits)
  with up have st: "start_session lim resume groq s = (Inr q, s')"
    by (cases "start_session lim resume groq s"; cases "fst (start_session lim resume groq s)")
      (auto simp: upload_resume_def)
  then have body: "strip resume \<noteq> []" "\<exists>reply. groq = Some reply \<and> question_of_completion lim reply = Inr q"
    by (auto simp: start_session_def Let_def split: if_splits option.splits sum.splits)
  from st have s': "s' = add_question q (reset resume s)"
    by (rule start_session_started)
  then have lit: "s' = \<lparr>questions = [q], answers = [], current_question = 0, resume_text = resume,
              conversation_history = [(py ''assistant'', q)]\<rparr>"
    by (simp add: add_question_def reset_def)
  from body have "start_session lim resume groq s2 = (Inr q, add_question q (reset resume s2))"
    by (auto simp: start_session_def Let_def)
  moreover have "add_question q (reset resume s2) = s'"
    by (simp add: lit add_question_def reset_def)
  ultimately have "upload_resume lim filename content doc groq s2 = (Inr q, s')"
    using req by (simp add: upload_resume_def)
  with req lit show ?thesis by simp
qed

text \<open>
  The theorem at the sample resume, uploaded after a session of four answers and into
  the initial state: both give the same state.
\<close>

theorem upload_resume_resets_witness:
  "upload_resume cpython (Some (py ''cv.pdf'')) [37] (Pages demo_resume) demo_reply demo_four =
     (Inr mutex_question, demo_started) \<and>
   demo_started =
     \<lparr>questions = [mutex_question], answers = [], current_question = 0,
      resume_text = demo_resume,
      conversation_history = [(py ''assistant'', mutex_question)]\<rparr> \<and>
   upload_resume cpython (Some (py ''cv.pdf'')) [37] (Pages demo_resume) demo_reply init_state =
     (Inr mutex_question, demo_started)"
proof -
  have up: "upload_resume cpython (Some (py ''cv.pdf'')) [37] (Pages demo_resume) demo_reply demo_four =
     (Inr mutex_question, demo_started)"
    by (simp add: upload_resume_def start_session_def strip_demo_resume Let_def demo_reply_def
          demo_question endswith_def demo_started_eq add_question_def reset_def)
  from upload_resume_resets [OF up, of init_state] up show ?thesis
    by auto
qed

subsection \<open>Asking for the next question\<close>

text \<open>
  Claim C10.  \<open>get_next_question\<close> leaves the session state as it is, whether it
  returns the completion signal, a question with its audio and position, or an error.
\<close>

theorem get_next_question_frame:
  "snd (get_next_question tts s) = s \<and>
   (fst (get_next_question tts s) = Inr Completed \<or>
    (\<exists>q a. fst (get_next_question tts s) = Inr (Ask q a (current_question s + 1) 3)) \<or>
    fst (get_next_question tts s) = Inl (HTTPException 500))"
  by (auto simp: get_next_question_def next_question_body_def handle_any_def
        split: sum.splits option.splits)

section \<open>Properties of the response extractor\<close>

subsection \<open>The searches return the first match\<close>

text \<open>
  What a match of the first regular expression is, by position: \<open>quoted_at t pre m\<close>
  says that after the prefix \<open>pre\<close> of \<open>t\<close> there is a double quote, then the group
  \<open>m\<close> (no quote in it, a last character \<open>?\<close> and at least one before that), then
  a double quote.
\<close>

definition quoted_at :: "str \<Rightarrow> str \<Rightarrow> str \<Rightarrow> bool" where
  "quoted_at t pre m \<longleftrightarrow>
     (\<exists>post. t = pre @ [34] @ m @ [34] @ post) \<and> 34 \<notin> set m \<and> 2 \<le> length m \<and> last m = 63"

lemma until_quote:
  assumes "34 \<notin> set m"
  shows "takeWhile (\<lambda>x. x \<noteq> 34) (m @ 34 # post) = m"
    and "dropWhile (\<lambda>x. x \<noteq> 34) (m @ 34 # post) = 34 # post"
  using assms by (induction m) auto

lemma quoted_at_Nil:
  "quoted_at (c # cs) [] m \<longleftrightarrow>
     c = 34 \<and> m = takeWhile (\<lambda>x. x \<noteq> 34) cs \<and> dropWhile (\<lambda>x. x \<noteq> 34) cs \<noteq> [] \<and>
     2 \<le> length m \<and> last m = 63"
proof
  assume "quoted_at (c # cs) [] m"
  then obtain post where "c = 34" "cs = m @ 34 # post" "34 \<notin> set m" "2 \<le> length m" "last m = 63"
    by (auto simp: quoted_at_def)
  then show "c = 34 \<and> m = takeWhile (\<lambda>x. x \<noteq> 34) cs \<and> dropWhile (\<lambda>x. x \<noteq> 34) cs \<noteq> [] \<and>
     2 \<le> length m \<and> last m = 63"
    by (simp add: until_quote)
next
  assume r: "c = 34 \<and> m = takeWhile (\<lambda>x. x \<noteq> 34) cs \<and> dropWhile (\<lambda>x. x \<noteq> 34) cs \<noteq> [] \<and>
     2 \<le> length m \<and> last m = 63"
  then obtain d ds where d: "dropWhile (\<lambda>x. x \<noteq> 34) cs = d # ds"
    by (cases "dropWhile (\<lambda>x. x \<noteq> 34) cs") auto
  then have "d = 34"
    using hd_dropWhile [of "\<lambda>x. x \<noteq> 34" cs] by auto
  with d have "cs = m @ 34 # ds"
    using r takeWhile_dropWhile_id [of "\<lambda>x. x \<noteq> 34" cs] by simp
  moreover have "34 \<notin> set m"
    using r by (auto dest: set_takeWhileD)
  ultimately show "quoted_at (c # cs) [] m"
    using r by (auto simp: quoted_at_def)
qed

lemma quoted_at_Cons:
  "quoted_at (c # cs) (p # pre) m \<longleftrightarrow> p = c \<and> quoted_at cs pre m"
  by (auto simp: quoted_at_def)

lemma search_quoted_head:
  assumes "quoted_at (c # cs) [] m0"
  shows "search_quoted_question (c # cs) = Some m0"
proof -
  note parts = assms [unfolded quoted_at_Nil]
  from parts have "c = 34" and "takeWhile (\<lambda>x. x \<noteq> 34) cs = m0"
    and "dropWhile (\<lambda>x. x \<noteq> 34) cs \<noteq> []" and "2 \<le> length m0" and "last m0 = 63"
    by (elim conjE, simp del: dropWhile_eq_Nil_conv)+
  then show ?thesis
    by (simp add: Let_def del: dropWhile_eq_Nil_conv)
qed

lemma search_quoted_skip:
  assumes "\<And>m0. \<not> quoted_at (c # cs) [] m0"
  shows "search_quoted_question (c # cs) = search_quoted_question cs"
proof -
  have "\<not> (c = 34 \<and> dropWhile (\<lambda>x. x \<noteq> 34) cs \<noteq> [] \<and>
      2 \<le> length (takeWhile (\<lambda>x. x \<noteq> 34) cs) \<and> last (takeWhile (\<lambda>x. x \<noteq> 34) cs) = 63)"
    using assms [of "takeWhile (\<lambda>x. x \<noteq> 34) cs"] unfolding quoted_at_Nil by blast
  then show ?thesis
    by (simp add: Let_def del: dropWhile_eq_Nil_conv) blast
qed

lemma search_quoted_question_None:
  "search_quoted_question t = None \<longleftrightarrow> (\<forall>pre m. \<not> quoted_at t pre m)"
proof (induction t)
  case Nil
  show ?case by (simp add: quoted_at_def)
next
  case (Cons c cs)
  show ?case
  proof (cases "\<exists>m0. quoted_at (c # cs) [] m0")
    case True
    then obtain m0 where m0: "quoted_at (c # cs) [] m0" ..
    from search_quoted_head [OF m0] m0 show ?thesis by auto
  next
    case False
    then have rec: "search_quoted_question (c # cs) = search_quoted_question cs"
      by (intro search_quoted_skip) blast
    have "(\<forall>pre m. \<not> quoted_at (c # cs) pre m) \<longleftrightarrow> (\<forall>pre m. \<not> quoted_at cs pre m)"
    proof
      assume none: "\<forall>pre m. \<not> quoted_at (c # cs) pre m"
      show "\<forall>pre m. \<not> quoted_at cs pre m"
      proof (intro allI notI)
        fix pre m assume "quoted_at cs pre m"
        then have "quoted_at (c # cs) (c # pre) m" by (simp add: quoted_at_Cons)
        with none show False by blast
      qed
    next
      assume none: "\<forall>pre m. \<not> quoted_at cs pre m"
      show "\<forall>pre m. \<not> quoted_at (c # cs) pre m"
      proof (intro allI notI)
        fix pre m assume q: "quoted_at (c # cs) pre m"
        show False
        proof (cases pre)
          case Nil
          with q False show False by blast
        next
          case (Cons p pre0)
          with q have "quoted_at cs pre0 m" by (simp add: quoted_at_Cons)
          with none show False by blast
        qed
      qed
    qed
    with rec Cons.IH show ?thesis by simp
  qed
qed

text \<open>The match \<open>re.search\<close> returns is the one that starts first.\<close>

definition first_quoted :: "str \<Rightarrow> str \<Rightarrow> bool" where
  "first_quoted t m \<longleftrightarrow>
     (\<exists>pre. quoted_at t pre m \<and>
        (\<forall>pre' m'. quoted_at t pre' m' \<longrightarrow> length pre < length pre' \<or> (pre' = pre \<and> m' = m)))"

lemma first_quoted_head:
  assumes "quoted_at (c # cs) [] m0"
  shows "first_quoted (c # cs) m \<longleftrightarrow> m = m0"
proof
  assume "first_quoted (c # cs) m"
  then obtain pre where "quoted_at (c # cs) pre m"
    and least: "\<forall>pre' m'. quoted_at (c # cs) pre' m' \<longrightarrow>
      length pre < length pre' \<or> (pre' = pre \<and> m' = m)"
    unfolding first_quoted_def by blast
  from least [rule_format, OF assms] show "m = m0" by auto
next
  assume "m = m0"
  have uniq: "m' = m0" if "quoted_at (c # cs) [] m'" for m'
    using that assms unfolding quoted_at_Nil by simp
  have "\<forall>pre' m'. quoted_at (c # cs) pre' m' \<longrightarrow> length [] < length pre' \<or> (pre' = [] \<and> m' = m0)"
  proof (intro allI impI)
    fix pre' m' assume "quoted_at (c # cs) pre' m'"
    then show "length [] < length pre' \<or> (pre' = [] \<and> m' = m0)"
      using uniq by (cases pre') auto
  qed
  with assms \<open>m = m0\<close> show "first_quoted (c # cs) m"
    unfolding first_quoted_def by blast
qed

lemma first_quoted_skip:
  assumes "\<And>m0. \<not> quoted_at (c # cs) [] m0"
  shows "first_quoted (c # cs) m \<longleftrightarrow> first_quoted cs m"
proof
  assume "first_quoted (c # cs) m"
  then obtain pre where q: "quoted_at (c # cs) pre m"
    and least: "\<forall>pre' m'. quoted_at (c # cs) pre' m' \<longrightarrow>
      length pre < length pre' \<or> (pre' = pre \<and> m' = m)"
    unfolding first_quoted_def by blast
  from q assms obtain pre0 where pre0: "pre = c # pre0" "quoted_at cs pre0 m"
    by (cases pre) (auto simp: quoted_at_Cons)
  have "\<forall>pre' m'. quoted_at cs pre' m' \<longrightarrow> length pre0 < length pre' \<or> (pre' = pre0 \<and> m' = m)"
  proof (intro allI impI)
    fix pre' m' assume "quoted_at cs pre' m'"
    then have "quoted_at (c # cs) (c # pre') m'" by (simp add: quoted_at_Cons)
    from least [rule_format, OF this] pre0
    show "length pre0 < length pre' \<or> (pre' = pre0 \<and> m' = m)" by auto
  qed
  with pre0 show "first_quoted cs m"
    unfolding first_quoted_def by blast
next
  assume "first_quoted cs m"
  then obtain pre where q: "quoted_at cs pre m"
    and least: "\<forall>pre' m'. quoted_at cs pre' m' \<longrightarrow>
      length pre < length pre' \<or> (pre' = pre \<and> m' = m)"
    unfolding first_quoted_def by blast
  have "\<forall>pre' m'. quoted_at (c # cs) pre' m' \<longrightarrow>
      length (c # pre) < length pre' \<or> (pre' = c # pre \<and> m' = m)"
  proof (intro allI impI)
    fix pre' m' assume q': "quoted_at (c # cs) pre' m'"
    with assms obtain pre0 where p: "pre' = c # pre0" and "quoted_at cs pre0 m'"
      by (cases pre') (auto simp: quoted_at_Cons)
    from least [rule_format, OF this(2)] p
    show "length (c # pre) < length pre' \<or> (pre' = c # pre \<and> m' = m)" by auto
  qed
  moreover from q have "quoted_at (c # cs) (c # pre) m" by (simp add: quoted_at_Cons)
  ultimately show "first_quoted (c # cs) m"
    unfolding first_quoted_def by blast
qed

lemma search_quoted_question_Some:
  "search_quoted_question t = Some m \<longleftrightarrow> first_quoted t m"
proof (induction t)
  case Nil
  show ?case by (simp add: first_quoted_def quoted_at_def)
next
  case (Cons c cs)
  show ?case
  proof (cases "\<exists>m0. quoted_at (c # cs) [] m0")
    case True
    then obtain m0 where m0: "quoted_at (c # cs) [] m0" ..
    show ?thesis
      unfolding search_quoted_head [OF m0] first_quoted_head [OF m0] by auto
  next
    case False
    then have none: "\<And>m0. \<not> quoted_at (c # cs) [] m0" by blast
    show ?thesis
      unfolding search_quoted_skip [OF none] first_quoted_skip [OF none] by (rule Cons.IH)
  qed
qed

text \<open>
  The second regular expression: after the prefix \<open>pre\<close> there is a run of at least
  one character, none of them \<open>.\<close>, \<open>!\<close> or \<open>?\<close>, and then a question mark;
  the group \<open>m\<close> is the run with the question mark.
\<close>

definition sentence_at :: "str \<Rightarrow> str \<Rightarrow> str \<Rightarrow> bool" where
  "sentence_at t pre m \<longleftrightarrow>
     (\<exists>body post. t = pre @ body @ [63] @ post \<and> body \<noteq> [] \<and>
        (\<forall>c \<in> set body. \<not> terminator c) \<and> m = body @ [63])"

definition first_sentence :: "str \<Rightarrow> str \<Rightarrow> bool" where
  "first_sentence t m \<longleftrightarrow>
     (\<exists>pre. sentence_at t pre m \<and>
        (\<forall>pre' m'. sentence_at t pre' m' \<longrightarrow> length pre < length pre' \<or> (pre' = pre \<and> m' = m)))"

lemma terminator_question: "terminator 63"
  by (simp add: terminator_def)

lemma until_terminator:
  assumes "\<forall>c \<in> set body. \<not> terminator c" "terminator d"
  shows "takeWhile (\<lambda>x. \<not> terminator x) (body @ d # post) = body"
    and "dropWhile (\<lambda>x. \<not> terminator x) (body @ d # post) = d # post"
  using assms by (induction body) auto

lemma sentence_at_Nil:
  "sentence_at t [] m \<longleftrightarrow>
     takeWhile (\<lambda>x. \<not> terminator x) t \<noteq> [] \<and>
     take 1 (dropWhile (\<lambda>x. \<not> terminator x) t) = [63] \<and>
     m = takeWhile (\<lambda>x. \<not> terminator x) t @ [63]"
proof
  assume "sentence_at t [] m"
  then obtain body post where "t = body @ 63 # post" "body \<noteq> []"
    "\<forall>c \<in> set body. \<not> terminator c" "m = body @ [63]"
    by (auto simp: sentence_at_def)
  then show "takeWhile (\<lambda>x. \<not> terminator x) t \<noteq> [] \<and>
     take 1 (dropWhile (\<lambda>x. \<not> terminator x) t) = [63] \<and>
     m = takeWhile (\<lambda>x. \<not> terminator x) t @ [63]"
    by (simp add: until_terminator terminator_question)
next
  assume r: "takeWhile (\<lambda>x. \<not> terminator x) t \<noteq> [] \<and>
     take 1 (dropWhile (\<lambda>x. \<not> terminator x) t) = [63] \<and>
     m = takeWhile (\<lambda>x. \<not> terminator x) t @ [63]"
  define body where "body = takeWhile (\<lambda>x. \<not> terminator x) t"
  from r obtain post where d: "dropWhile (\<lambda>x. \<not> terminator x) t = 63 # post"
    by (cases "dropWhile (\<lambda>x. \<not> terminator x) t") auto
  have "t = body @ 63 # post"
    using takeWhile_dropWhile_id [of "\<lambda>x. \<not> terminator x" t] d by (simp add: body_def)
  moreover have "\<forall>c \<in> set body. \<not> terminator c"
    by (auto simp: body_def dest: set_takeWhileD)
  ultimately show "sentence_at t [] m"
    using r by (auto simp: sentence_at_def body_def)
qed

lemma sentence_at_Cons:
  "sentence_at (c # cs) (p # pre) m \<longleftrightarrow> p = c \<and> sentence_at cs pre m"
  by (auto simp: sentence_at_def)

lemma search_sentence_head:
  assumes "sentence_at (c # cs) [] m0"
  shows "search_question_sentence (c # cs) = Some m0"
proof -
  note parts = assms [unfolded sentence_at_Nil]
  from parts have "takeWhile (\<lambda>x. \<not> terminator x) (c # cs) \<noteq> []"
    and "take 1 (dropWhile (\<lambda>x. \<not> terminator x) (c # cs)) = [63]"
    and "m0 = takeWhile (\<lambda>x. \<not> terminator x) (c # cs) @ [63]"
    by blast+
  then show ?thesis
    unfolding search_question_sentence.simps Let_def by simp
qed

lemma search_sentence_skip:
  assumes "\<And>m0. \<not> sentence_at (c # cs) [] m0"
  shows "search_question_sentence (c # cs) = search_question_sentence cs"
proof -
  have "\<not> (takeWhile (\<lambda>x. \<not> terminator x) (c # cs) \<noteq> [] \<and>
      take 1 (dropWhile (\<lambda>x. \<not> terminator x) (c # cs)) = [63])"
    using assms [of "takeWhile (\<lambda>x. \<not> terminator x) (c # cs) @ [63]"]
    unfolding sentence_at_Nil by blast
  then show ?thesis
    unfolding search_question_sentence.simps Let_def by (auto split: if_splits)
qed

lemma search_question_sentence_None:
  "search_question_sentence t = None \<longleftrightarrow> (\<forall>pre m. \<not> sentence_at t pre m)"
proof (induction t)
  case Nil
  show ?case by (simp add: sentence_at_def)
next
  case (Cons c cs)
  show ?case
  proof (cases "\<exists>m0. sentence_at (c # cs) [] m0")
    case True
    then obtain m0 where m0: "sentence_at (c # cs) [] m0" ..
    from search_sentence_head [OF m0] m0 show ?thesis by auto
  next
    case False
    then have rec: "search_question_sentence (c # cs) = search_question_sentence cs"
      by (intro search_sentence_skip) blast
    have "(\<forall>pre m. \<not> sentence_at (c # cs) pre m) \<longleftrightarrow> (\<forall>pre m. \<not> sentence_at cs pre m)"
    proof
      assume none: "\<forall>pre m. \<not> sentence_at (c # cs) pre m"
      show "\<forall>pre m. \<not> sentence_at cs pre m"
      proof (intro allI notI)
        fix pre m assume "sentence_at cs pre m"
        then have "sentence_at (c # cs) (c # pre) m" by (simp add: sentence_at_Cons)
        with none show False by blast
      qed
    next
      assume none: "\<forall>pre m. \<not> sentence_at cs pre m"
      show "\<forall>pre m. \<not> sentence_at (c # cs) pre m"
      proof (intro allI notI)
        fix pre m assume q: "sentence_at (c # cs) pre m"
        show False
        proof (cases pre)
          case Nil
          with q False show False by blast
        next
          case (Cons p pre0)
          with q have "sentence_at cs pre0 m" by (simp add: sentence_at_Cons)
          with none show False by blast
        qed
      qed
    qed
    with rec Cons.IH show ?thesis by simp
  qed
qed

lemma first_sentence_head:
  assumes "sentence_at (c # cs) [] m0"
  shows "first_sentence (c # cs) m \<longleftrightarrow> m = m0"
proof
  assume "first_sentence (c # cs) m"
  then obtain pre where "sentence_at (c # cs) pre m"
    and least: "\<forall>pre' m'. sentence_at (c # cs) pre' m' \<longrightarrow>
      length pre < length pre' \<or> (pre' = pre \<and> m' = m)"
    unfolding first_sentence_def by blast
  from least [rule_format, OF assms] show "m = m0" by auto
next
  assume "m = m0"
  have uniq: "m' = m0" if "sentence_at (c # cs) [] m'" for m'
    using that assms unfolding sentence_at_Nil by simp
  have "\<forall>pre' m'. sentence_at (c # cs) pre' m' \<longrightarrow> length [] < length pre' \<or> (pre' = [] \<and> m' = m0)"
  proof (intro allI impI)
    fix pre' m' assume "sentence_at (c # cs) pre' m'"
    then show "length [] < length pre' \<or> (pre' = [] \<and> m' = m0)"
      using uniq by (cases pre') auto
  qed
  with assms \<open>m = m0\<close> show "first_sentence (c # cs) m"
    unfolding first_sentence_def by blast
qed

lemma first_sentence_skip:
  assumes "\<And>m0. \<not> sentence_at (c # cs) [] m0"
  shows "first_sentence (c # cs) m \<longleftrightarrow> first_sentence cs m"
proof
  assume "first_sentence (c # cs) m"
  then obtain pre where q: "sentence_at (c # cs) pre m"
    and least: "\<forall>pre' m'. sentence_at (c # cs) pre' m' \<longrightarrow>
      length pre < length pre' \<or> (pre' = pre \<and> m' = m)"
    unfolding first_sentence_def by blast
  from q assms obtain pre0 where pre0: "pre = c # pre0" "sentence_at cs pre0 m"
    by (cases pre) (auto simp: sentence_at_Cons)
  have "\<forall>pre' m'. sentence_at cs pre' m' \<longrightarrow> length pre0 < length pre' \<or> (pre' = pre0 \<and> m' = m)"
  proof (intro allI impI)
    fix pre' m' assume "sentence_at cs pre' m'"
    then have "sentence_at (c # cs) (c # pre') m'" by (simp add: sentence_at_Cons)
    from least [rule_format, OF this] pre0
    show "length pre0 < length pre' \<or> (pre' = pre0 \<and> m' = m)" by auto
  qed
  with pre0 show "first_sentence cs m"
    unfolding first_sentence_def by blast
next
  assume "first_sentence cs m"
  then obtain pre where q: "sentence_at cs pre m"
    and least: "\<forall>pre' m'. sentence_at cs pre' m' \<longrightarrow>
      length pre < length pre' \<or> (pre' = pre \<and> m' = m)"
    unfolding first_sentence_def by blast
  have "\<forall>pre' m'. sentence_at (c # cs) pre' m' \<longrightarrow>
      length (c # pre) < length pre' \<or> (pre' = c # pre \<and> m' = m)"
  proof (intro allI impI)
    fix pre' m' assume q': "sentence_at (c # cs) pre' m'"
    with assms obtain pre0 where p: "pre' = c # pre0" and "sentence_at cs pre0 m'"
      by (cases pre') (auto simp: sentence_at_Cons)
    from least [rule_format, OF this(2)] p
    show "length (c # pre) < length pre' \<or> (pre' = c # pre \<and> m' = m)" by auto
  qed
  moreover from q have "sentence_at (c # cs) (c # pre) m" by (simp add: sentence_at_Cons)
  ultimately show "first_sentence (c # cs) m"
    unfolding first_sentence_def by blast
qed

lemma search_question_sentence_Some:
  "search_question_sentence t = Some m \<longleftrightarrow> first_sentence t m"
proof (induction t)
  case Nil
  show ?case by (simp add: first_sentence_def sentence_at_def)
next
  case (Cons c cs)
  show ?case
  proof (cases "\<exists>m0. sentence_at (c # cs) [] m0")
    case True
    then obtain m0 where m0: "sentence_at (c # cs) [] m0" ..
    show ?thesis
      unfolding search_sentence_head [OF m0] first_sentence_head [OF m0] by auto
  next
    case False
    then have none: "\<And>m0. \<not> sentence_at (c # cs) [] m0" by blast
    show ?thesis
      unfolding search_sentence_skip [OF none] first_sentence_skip [OF none] by (rule Cons.IH)
  qed
qed

subsection \<open>What \<open>extract_question_from_response\<close> returns\<close>


lemma question_field_null:
  \<open>json_loads cpython (py ''{"question": null}'') = Inr (JObject [(py ''question'', JNull)])\<close>
  by (simp add: json_loads_def limit_def depth_def cpython_def step_def key_step_def
        value_step_def complete_def close_object_def)

lemma question_field_five:
  \<open>json_loads cpython (py ''{"question": 5}'') = Inr (JObject [(py ''question'', JInt 5)])\<close>
  by (simp add: json_loads_def limit_def depth_def cpython_def step_def key_step_def
        value_step_def complete_def close_object_def scan_number_def scan_fraction_def
        scan_exponent_def isdigit_def digits_value_def)

lemma question_field_mutex:
  \<open>json_loads cpython (py ''{"question": "What is a mutex?"}'') =
     Inr (JObject [(py ''question'', JString (py ''What is a mutex?''))])\<close>
  by (simp add: json_loads_def limit_def depth_def cpython_def step_def key_step_def
        value_step_def complete_def close_object_def)

text \<open>
  A text that opens more arrays than the interpreter can nest raises \<open>RecursionError\<close>,
  whatever follows the brackets.
\<close>

lemma tokenize_brackets:
  "tokenize (replicate n (ord CHR ''['') @ s) = replicate n TLBracket @ tokenize s"
  by (induction n) simp_all

lemma run_brackets:
  assumes "e = Value \<or> e = ValueOrEnd" "max_depth lim < depth st + n" "0 < n"
  shows "run lim (e, st) (replicate n TLBracket @ ts) = Inl RecursionError"
  using assms
proof (induction n arbitrary: e st)
  case 0
  then show ?case by simp
next
  case (Suc n)
  show ?case
  proof (cases "max_depth lim \<le> depth st")
    case True
    with Suc.prems(1) show ?thesis
      by (auto simp: limit_def)
  next
    case False
    then have none: "limit lim (e, st) TLBracket = None"
      using Suc.prems(1) by (auto simp: limit_def)
    have opened: "step (e, st) TLBracket = Some (ValueOrEnd, ArrayF [] # st)"
      using Suc.prems(1) by (auto simp: step_def value_step_def)
    have deeper: "depth (ArrayF [] # st) = Suc (depth st)"
      by (simp add: depth_def)
    from False Suc.prems(2) have "0 < n" "max_depth lim < depth (ArrayF [] # st) + n"
      by (simp_all add: deeper)
    then have "run lim (ValueOrEnd, ArrayF [] # st) (replicate n TLBracket @ ts) =
        Inl RecursionError"
      by (intro Suc.IH) simp_all
    with none opened show ?thesis by simp
  qed
qed

lemma json_loads_deep:
  assumes "max_depth lim < n"
  shows "json_loads lim (replicate n (ord CHR ''['') @ s) = Inl RecursionError"
proof -
  from assms have "run lim (Value, []) (replicate n TLBracket @ tokenize s) = Inl RecursionError"
    by (intro run_brackets) (simp_all add: depth_def)
  then show ?thesis
    by (simp add: json_loads_def tokenize_brackets [simplified])
qed

text \<open>An integer literal with more digits than \<open>int\<close> converts raises \<open>ValueError\<close>.\<close>

lemma scan_number_ones:
  "scan_number (replicate (Suc k) (ord CHR ''1'')) =
     Some (TInt (digits_value (replicate (Suc k) (ord CHR ''1''))) (Suc k), [])"
proof -
  have "takeWhile isdigit (replicate k (49::nat)) = replicate k 49"
    by (simp add: isdigit_def takeWhile_eq_all_conv [THEN iffD2])
  moreover have "dropWhile isdigit (replicate k (49::nat)) = []"
    by (simp add: isdigit_def)
  ultimately show ?thesis
    by (simp add: scan_number_def Let_def isdigit_def scan_fraction_def scan_exponent_def)
qed

lemma json_loads_long_int:
  assumes "max_digits lim \<noteq> 0" "max_digits lim < Suc k"
  shows "json_loads lim (replicate (Suc k) (ord CHR ''1'')) = Inl ValueError"
proof -
  have "tokenize (replicate (Suc k) (ord CHR ''1'')) =
      [TInt (digits_value (replicate (Suc k) (ord CHR ''1''))) (Suc k)]"
    using scan_number_ones [of k] by simp
  with assms show ?thesis
    by (simp add: json_loads_def limit_def)
qed

lemma extract_raises:
  assumes "json_loads lim t = Inl e" "e \<noteq> JSONDecodeError"
  shows "extract_question_from_response lim t = Inl e"
  using assms by (simp add: extract_question_from_response_def try_json_def)

text \<open>
  Claim C9.  The function does not return a string for every input.  For the text
  \<^verbatim>\<open>{"question": null}\<close> it returns \<open>None\<close>: the member is returned as it is.
  For 996 opening brackets it raises \<open>RecursionError\<close>, and for an integer of 4301
  digits \<open>ValueError\<close>: the handler of line 69 catches \<open>JSONDecodeError\<close> only, and
  the fallback of line 83 is not reached.
\<close>

theorem extract_question_not_total:
  \<open>extract_question_from_response cpython (py ''{"question": null}'') = Inr JNull \<and>
   extract_question_from_response cpython (replicate 996 (ord CHR ''['')) = Inl RecursionError \<and>
   extract_question_from_response cpython (replicate 4301 (ord CHR ''1'')) = Inl ValueError\<close>
proof (intro conjI)
  show \<open>extract_question_from_response cpython (py ''{"question": null}'') = Inr JNull\<close>
    by (simp add: extract_question_from_response_def try_json_def
          question_field_null [simplified])
  have "json_loads cpython (replicate 996 (ord CHR ''['') @ []) = Inl RecursionError"
    by (rule json_loads_deep) (simp add: cpython_def)
  then show "extract_question_from_response cpython (replicate 996 (ord CHR ''['')) =
      Inl RecursionError"
    by (intro extract_raises) simp_all
  have "json_loads cpython (replicate (Suc 4300) (ord CHR ''1'')) = Inl ValueError"
    by (rule json_loads_long_int) (simp_all add: cpython_def)
  then show "extract_question_from_response cpython (replicate 4301 (ord CHR ''1'')) =
      Inl ValueError"
    by (intro extract_raises) simp_all
qed

subsection \<open>The question that is stored\<close>

lemma example_five:
  \<open>extract_question_from_response cpython (py ''{"question": 5}'') = Inr (JInt 5)\<close>
  by (simp add: extract_question_from_response_def try_json_def question_field_five [simplified])

lemma example_five_question:
  \<open>question_of_completion cpython (py ''{"question": 5}'') = Inl AttributeError\<close>
  by (simp add: question_of_completion_def strip_def isspace_def example_five [simplified]
        ensure_question_mark_def)

text \<open>
  Claim C4.  Extraction does not yield a question ending in \<open>?\<close> for every input.  For
  the completion \<^verbatim>\<open>{"question": 5}\<close> step (1) returns the number 5; the caller's
  \<open>endswith\<close> (line 149) raises \<open>AttributeError\<close>, no question is stored, and
  \<open>upload_resume\<close> answers with status 500.
\<close>

theorem question_not_str:
  \<open>extract_question_from_response cpython (py ''{"question": 5}'') = Inr (JInt 5) \<and>
   question_of_completion cpython (py ''{"question": 5}'') = Inl AttributeError \<and>
   upload_resume cpython (Some (py ''cv.pdf'')) [37] (Pages demo_resume)
       (Some (py ''{"question": 5}'')) init_state =
     (Inl (HTTPException 500), reset demo_resume init_state)\<close>
  by (simp add: example_five [simplified] example_five_question [simplified]
        upload_resume_def start_session_def strip_demo_resume Let_def endswith_def
        handle_http_def handle_any_def)

subsection \<open>The order of the extraction steps\<close>

text \<open>
  The \<open>try\<close> block falls through to the searches when \<open>json.loads\<close> raises
  \<open>JSONDecodeError\<close>, and when it returns a value that is not an object with a
  \<open>question\<close> member.
\<close>

lemma try_json_None:
  "try_json lim t = Inr None \<longleftrightarrow>
     json_loads lim t = Inl JSONDecodeError \<or>
     (\<exists>v. json_loads lim t = Inr v \<and>
          (\<forall>d. v = JObject d \<longrightarrow> dict_get d (py ''question'') = None))"
  by (auto simp: try_json_def split: sum.splits json.splits)

lemma try_json_Some:
  "try_json lim t = Inr (Some v) \<longleftrightarrow>
     (\<exists>d. json_loads lim t = Inr (JObject d) \<and> dict_get d (py ''question'') = Some v)"
  by (auto simp: try_json_def split: sum.splits json.splits)

lemma extract_json:
  "try_json lim t = Inr (Some v) \<Longrightarrow> extract_question_from_response lim t = Inr v"
  by (simp add: extract_question_from_response_def)

lemma extract_quoted:
  "try_json lim t = Inr None \<Longrightarrow> search_quoted_question t = Some m \<Longrightarrow>
     extract_question_from_response lim t = Inr (JString m)"
  by (simp add: extract_question_from_response_def)

lemma extract_sentence:
  "try_json lim t = Inr None \<Longrightarrow> search_quoted_question t = None \<Longrightarrow>
   search_question_sentence t = Some m \<Longrightarrow>
     extract_question_from_response lim t = Inr (JString (strip m))"
  by (simp add: extract_question_from_response_def)

lemma extract_fallback:
  "try_json lim t = Inr None \<Longrightarrow> search_quoted_question t = None \<Longrightarrow>
   search_question_sentence t = None \<Longrightarrow>
     extract_question_from_response lim t = Inr (JString (strip t))"
  by (simp add: extract_question_from_response_def)

lemma endswith_char: "endswith s [c] \<longleftrightarrow> s \<noteq> [] \<and> last s = c"
proof (cases s rule: rev_cases)
  case Nil
  then show ?thesis by (simp add: endswith_def)
next
  case (snoc xs x)
  then show ?thesis by (simp add: endswith_def)
qed

lemma ensure_question_mark_ends:
  "ensure_question_mark v = Inr q \<Longrightarrow> endswith q (py ''?'')"
  by (auto simp: ensure_question_mark_def endswith_char split: json.splits if_splits)

lemma question_of_completion_ends:
  "question_of_completion lim content = Inr q \<Longrightarrow> endswith q (py ''?'')"
  unfolding question_of_completion_def
  by (auto split: sum.splits dest: ensure_question_mark_ends)

text \<open>
  The four steps in their order, for a text on which \<open>json.loads\<close> raises nothing but
  \<open>JSONDecodeError\<close>; and every question that is produced ends with \<open>?\<close>.
\<close>

lemma question_extraction_order:
  "(\<forall>d v. json_loads lim t = Inr (JObject d) \<and> dict_get d (py ''question'') = Some v \<longrightarrow>
        extract_question_from_response lim t = Inr v) \<and>
   (json_loads lim t = Inl JSONDecodeError \<or>
    (\<exists>v. json_loads lim t = Inr v \<and>
         (\<forall>d. v = JObject d \<longrightarrow> dict_get d (py ''question'') = None)) \<longrightarrow>
      (\<forall>m. first_quoted t m \<longrightarrow> extract_question_from_response lim t = Inr (JString m)) \<and>
      ((\<forall>pre m. \<not> quoted_at t pre m) \<longrightarrow>
         (\<forall>m. first_sentence t m \<longrightarrow>
            extract_question_from_response lim t = Inr (JString (strip m))) \<and>
         ((\<forall>pre m. \<not> sentence_at t pre m) \<longrightarrow>
            extract_question_from_response lim t = Inr (JString (strip t))))) \<and>
   (\<forall>q. question_of_completion lim t = Inr q \<longrightarrow> endswith q (py ''?''))"
proof (intro conjI)
  show "\<forall>d v. json_loads lim t = Inr (JObject d) \<and> dict_get d (py ''question'') = Some v \<longrightarrow>
        extract_question_from_response lim t = Inr v"
    using extract_json [of lim t] unfolding try_json_Some by blast
  show "json_loads lim t = Inl JSONDecodeError \<or>
    (\<exists>v. json_loads lim t = Inr v \<and>
         (\<forall>d. v = JObject d \<longrightarrow> dict_get d (py ''question'') = None)) \<longrightarrow>
      (\<forall>m. first_quoted t m \<longrightarrow> extract_question_from_response lim t = Inr (JString m)) \<and>
      ((\<forall>pre m. \<not> quoted_at t pre m) \<longrightarrow>
         (\<forall>m. first_sentence t m \<longrightarrow>
            extract_question_from_response lim t = Inr (JString (strip m))) \<and>
         ((\<forall>pre m. \<not> sentence_at t pre m) \<longrightarrow>
            extract_question_from_response lim t = Inr (JString (strip t))))"
  proof (intro impI conjI allI)
    assume "json_loads lim t = Inl JSONDecodeError \<or>
      (\<exists>v. json_loads lim t = Inr v \<and>
         (\<forall>d. v = JObject d \<longrightarrow> dict_get d (py ''question'') = None))"
    then have none: "try_json lim t = Inr None"
      unfolding try_json_None .
    { fix m assume "first_quoted t m"
      then show "extract_question_from_response lim t = Inr (JString m)"
        using none by (simp add: search_quoted_question_Some [symmetric] extract_quoted) }
    assume "\<forall>pre m. \<not> quoted_at t pre m"
    then have unquoted: "search_quoted_question t = None"
      by (simp add: search_quoted_question_None)
    { fix m assume "first_sentence t m"
      then show "extract_question_from_response lim t = Inr (JString (strip m))"
        using none unquoted
        by (simp add: search_question_sentence_Some [symmetric] extract_sentence) }
    assume "\<forall>pre m. \<not> sentence_at t pre m"
    then have "search_question_sentence t = None"
      by (simp add: search_question_sentence_None)
    with none unquoted show "extract_question_from_response lim t = Inr (JString (strip t))"
      by (rule extract_fallback)
  qed
  show "\<forall>q. question_of_completion lim t = Inr q \<longrightarrow> endswith q (py ''?'')"
    using question_of_completion_ends [of lim t] by blast
qed

text \<open>The three examples of the specification.\<close>

lemma example_json:
  \<open>question_of_completion cpython (py ''{"question": "What is a mutex?"}'') =
     Inr (py ''What is a mutex?'')\<close>
  by (simp add: question_of_completion_def strip_def isspace_def
        extract_question_from_response_def try_json_def question_field_mutex [simplified]
        ensure_question_mark_def endswith_def)

lemma example_quoted_loads:
  \<open>json_loads cpython (py ''Here is a question: "Explain your caching design?"'') =
     Inl JSONDecodeError\<close>
  by (simp add: json_loads_def scan_number_def isdigit_def limit_def step_def value_step_def)

lemma example_quoted:
  \<open>question_of_completion cpython (py ''Here is a question: "Explain your caching design?"'') =
     Inr (py ''Explain your caching design?'')\<close>
  by (simp add: question_of_completion_def strip_def isspace_def
        extract_question_from_response_def try_json_def example_quoted_loads [simplified]
        ensure_question_mark_def endswith_def)

lemma example_plain_loads:
  \<open>json_loads cpython (py ''Tell me about your last project'') = Inl JSONDecodeError\<close>
  by (simp add: json_loads_def scan_number_def isdigit_def limit_def step_def value_step_def)

lemma example_plain:
  \<open>question_of_completion cpython (py ''Tell me about your last project'') =
     Inr (py ''Tell me about your last project?'')\<close>
  by (simp add: question_of_completion_def strip_def isspace_def
        extract_question_from_response_def try_json_def example_plain_loads [simplified]
        terminator_def ensure_question_mark_def endswith_def)

section \<open>Properties of the feedback extraction\<close>

subsection \<open>A text that starts with a brace decodes to an object\<close>













subsection \<open>\<open>find\<close>, \<open>rfind\<close> and \<open>strip\<close>\<close>












subsection \<open>Feedback extraction\<close>


















subsection \<open>What \<open>generate_feedback\<close> returns\<close>











end
